theory Spec2Isabelle
  imports Complex_Main "HOL-Library.Word" "HOL-Library.Monad_Syntax"
begin

section \<open>Numeric model\<close>

text \<open>
  The kernel of \<^verbatim>\<open>pgeof.cpp\<close> works on \<^verbatim>\<open>float\<close>, \<^verbatim>\<open>uint32_t\<close>, \<^verbatim>\<open>std::size_t\<close> and
  \<^verbatim>\<open>int\<close>.

  \<^item> The integers are machine words of an LP64 platform: \<^verbatim>\<open>uint32_t\<close> is a 32-bit word,
    \<^verbatim>\<open>std::size_t\<close> a 64-bit word, \<^verbatim>\<open>int\<close> a 32-bit word read in two's complement
    (\<open>sint\<close>). A conversion from \<^verbatim>\<open>int\<close> to \<^verbatim>\<open>std::size_t\<close> is a sign extension
    (\<open>scast\<close>), from \<^verbatim>\<open>uint32_t\<close> to \<^verbatim>\<open>std::size_t\<close> a zero extension (\<open>ucast\<close>), and
    \<^verbatim>\<open>int(k_nn)\<close> keeps the low 32 bits (\<open>ucast\<close>).
  \<^item> A \<^verbatim>\<open>float\<close> is an exact real number: rounding, overflow, signed zeros, infinities
    and NaN are outside the model. An operation that leaves the finite numbers on finite
    arguments (a division by zero, the logarithm of a number that is not positive, the
    square root of a negative number) has no value: it returns \<open>None\<close>, and so does the
    computation that runs it.
  \<^item> A read or a write outside an array is undefined behaviour in C++; it is \<open>None\<close> too.
  \<^item> The arrays \<^verbatim>\<open>xyz\<close>, \<^verbatim>\<open>nn\<close>, \<^verbatim>\<open>nn_ptr\<close> and \<^verbatim>\<open>features\<close> are four separate lists:
    the buffers do not overlap.
\<close>

type_synonym float = real
type_synonym uint32_t = "32 word"
type_synonym size_t = "64 word"
type_synonym cint = "32 word"

definition fdiv :: "float \<Rightarrow> float \<Rightarrow> float option" where
  "fdiv x y = (if y = 0 then None else Some (x / y))"

definition flog :: "float \<Rightarrow> float option" where
  "flog x = (if x \<le> 0 then None else Some (ln x))"

definition fsqrt :: "float \<Rightarrow> float option" where
  "fsqrt x = (if x < 0 then None else Some (sqrt x))"

definition fpow :: "float \<Rightarrow> float \<Rightarrow> float option" where
  "fpow x y = (if x < 0 \<or> (x = 0 \<and> y \<le> 0) then None else Some (x powr y))"

definition rd :: "'a list \<Rightarrow> size_t \<Rightarrow> 'a option" where
  "rd xs i = (if unat i < length xs then Some (xs ! unat i) else None)"

definition wr :: "'a list \<Rightarrow> size_t \<Rightarrow> 'a \<Rightarrow> 'a list option" where
  "wr xs i v = (if unat i < length xs then Some (xs[unat i := v]) else None)"

section \<open>\<^verbatim>\<open>neighborhood_pca\<close>\<close>

record pcaOutput =
  val :: "float list"
  v0 :: "float list"
  v1 :: "float list"
  v2 :: "float list"
  eigenentropy :: float

text \<open>
  \<^verbatim>\<open>Eigen::EigenSolver<Matrix3f>\<close> is a library, not code of this repository: it is a
  parameter of the model. For a covariance matrix (three rows of three numbers) it gives
  the real parts of the three eigenvalues, \<^verbatim>\<open>es.eigenvalues()[i].real()\<close>, and of the
  eigenvector matrix, \<^verbatim>\<open>es.eigenvectors().col(j)(r).real()\<close>.
\<close>

type_synonym EigenSolver = "float list list \<Rightarrow> (nat \<Rightarrow> float) \<times> (nat \<Rightarrow> nat \<Rightarrow> float)"

text \<open>
  Lines 35--44: the loop over \<^verbatim>\<open>i_nei\<close> that fills \<^verbatim>\<open>cloud\<close>, one row \<open>[x, y, z]\<close> for each
  neighbour. The sum \<^verbatim>\<open>nn_ptr[i_point] + i_nei\<close> and the products \<^verbatim>\<open>3 * idx_nei\<close> are
  computed in \<^verbatim>\<open>std::size_t\<close>.
\<close>

function gather_cloud ::
  "float list \<Rightarrow> uint32_t list \<Rightarrow> uint32_t list \<Rightarrow> size_t \<Rightarrow> size_t \<Rightarrow> size_t \<Rightarrow>
   float list list \<Rightarrow> float list list option" where
  "gather_cloud xyz nn nn_ptr i_point k_nn i_nei cloud =
     (if i_nei < k_nn then
        do {
          p \<leftarrow> rd nn_ptr i_point;
          n \<leftarrow> rd nn (ucast p + i_nei);
          let idx_nei = (ucast n :: size_t);
          x \<leftarrow> rd xyz (3 * idx_nei);
          y \<leftarrow> rd xyz (3 * idx_nei + 1);
          z \<leftarrow> rd xyz (3 * idx_nei + 2);
          gather_cloud xyz nn nn_ptr i_point k_nn (i_nei + 1) (cloud @ [[x, y, z]])
        }
      else Some cloud)"
  by pat_completeness auto
termination
proof (relation "measure (\<lambda>(xyz, nn, nn_ptr, i_point, k_nn, i_nei, cloud). unat k_nn - unat i_nei)")
  show "wf (measure (\<lambda>(xyz, nn, nn_ptr, i_point, k_nn, i_nei, cloud). unat k_nn - unat i_nei))"
    by simp
next
  fix xyz :: "float list" and nn nn_ptr :: "uint32_t list" and i_point k_nn i_nei :: size_t
    and cloud :: "float list list" and p n :: uint32_t and idx :: size_t and x y z :: float
  assume "i_nei < k_nn"
  then have lt: "unat i_nei < unat k_nn"
    by (simp add: word_less_nat_alt)
  moreover have "unat k_nn < 2 ^ 64"
    using unsigned_less [of k_nn] by simp
  ultimately have "unat i_nei + 1 < 2 ^ 64"
    by linarith
  then have "unat (i_nei + 1) = Suc (unat i_nei)"
    by (simp add: unat_word_ariths)
  with lt have "unat k_nn - unat (i_nei + 1) < unat k_nn - unat i_nei"
    by linarith
  then show "((xyz, nn, nn_ptr, i_point, k_nn, i_nei + 1, cloud @ [[x, y, z]]),
                    (xyz, nn, nn_ptr, i_point, k_nn, i_nei, cloud))
        \<in> measure (\<lambda>(xyz, nn, nn_ptr, i_point, k_nn, i_nei, cloud). unat k_nn - unat i_nei)"
    by simp
qed

text \<open>
  Line 47: \<^verbatim>\<open>cloud.colwise().mean()\<close>, the sum of each column divided by the number of
  rows, and the rows minus that mean.
\<close>

definition colwise_mean :: "float list list \<Rightarrow> float list option" where
  "colwise_mean cloud =
     do {
       m0 \<leftarrow> fdiv (sum_list (map (\<lambda>row. row ! 0) cloud)) (real (length cloud));
       m1 \<leftarrow> fdiv (sum_list (map (\<lambda>row. row ! 1) cloud)) (real (length cloud));
       m2 \<leftarrow> fdiv (sum_list (map (\<lambda>row. row ! 2) cloud)) (real (length cloud));
       Some [m0, m1, m2]
     }"

definition centered_cloud :: "float list list \<Rightarrow> float list \<Rightarrow> float list list" where
  "centered_cloud cloud mean =
     map (\<lambda>row. [row ! 0 - mean ! 0, row ! 1 - mean ! 1, row ! 2 - mean ! 2]) cloud"

text \<open>Lines 48--49: \<^verbatim>\<open>(centered_cloud.adjoint() * centered_cloud) / float(k_nn)\<close>.\<close>

definition cov_entry :: "float list list \<Rightarrow> size_t \<Rightarrow> nat \<Rightarrow> nat \<Rightarrow> float option" where
  "cov_entry centered k_nn a b =
     fdiv (sum_list (map (\<lambda>row. row ! a * row ! b) centered)) (real (unat k_nn))"

definition cov_row :: "float list list \<Rightarrow> size_t \<Rightarrow> nat \<Rightarrow> float list option" where
  "cov_row centered k_nn a =
     do {
       c0 \<leftarrow> cov_entry centered k_nn a 0;
       c1 \<leftarrow> cov_entry centered k_nn a 1;
       c2 \<leftarrow> cov_entry centered k_nn a 2;
       Some [c0, c1, c2]
     }"

definition covariance :: "float list list \<Rightarrow> size_t \<Rightarrow> float list list option" where
  "covariance centered k_nn =
     do {
       r0 \<leftarrow> cov_row centered k_nn 0;
       r1 \<leftarrow> cov_row centered k_nn 1;
       r2 \<leftarrow> cov_row centered k_nn 2;
       Some [r0, r1, r2]
     }"

text \<open>
  Lines 65--68: \<^verbatim>\<open>std::sort\<close> on the three indices. The standard library is not code of
  this repository either; on a range of fewer than sixteen elements libstdc++ runs the
  insertion sort below (\<^verbatim>\<open>__insertion_sort\<close> with \<^verbatim>\<open>__unguarded_linear_insert\<close>, which
  walks from the end of the sorted prefix towards its start, so it takes the prefix
  reversed).
\<close>

fun unguarded_linear_insert :: "('a \<Rightarrow> 'a \<Rightarrow> bool) \<Rightarrow> 'a \<Rightarrow> 'a list \<Rightarrow> 'a list" where
  "unguarded_linear_insert cmp v [] = [v]"
| "unguarded_linear_insert cmp v (y # ys) =
     (if cmp v y then y # unguarded_linear_insert cmp v ys else v # y # ys)"

fun insertion_sort :: "('a \<Rightarrow> 'a \<Rightarrow> bool) \<Rightarrow> 'a list \<Rightarrow> 'a list \<Rightarrow> 'a list" where
  "insertion_sort cmp sorted_prefix [] = sorted_prefix"
| "insertion_sort cmp sorted_prefix (v # rest) =
     insertion_sort cmp
       (if cmp v (hd sorted_prefix) then v # sorted_prefix
        else rev (unguarded_linear_insert cmp v (rev sorted_prefix)))
       rest"

definition std_sort :: "('a \<Rightarrow> 'a \<Rightarrow> bool) \<Rightarrow> 'a list \<Rightarrow> 'a list" where
  "std_sort cmp xs = (case xs of [] \<Rightarrow> [] | x # rest \<Rightarrow> insertion_sort cmp [x] rest)"

text \<open>Lines 86--107: the same three assignments for each of \<^verbatim>\<open>v0\<close>, \<^verbatim>\<open>v1\<close>, \<^verbatim>\<open>v2\<close>.\<close>

definition z_plus :: "float list \<Rightarrow> float list" where
  "z_plus v = (if v ! 2 < 0 then [- (v ! 0), - (v ! 1), - (v ! 2)] else v)"

text \<open>Lines 109--117: the eigenentropy of the clamped eigenvalues.\<close>

definition pca_eigenentropy :: "float list \<Rightarrow> float option" where
  "pca_eigenentropy lam =
     (let epsilon = 0.001;
          val_sum = lam ! 0 + lam ! 1 + lam ! 2 + epsilon
      in do {
        e0 \<leftarrow> fdiv (lam ! 0) val_sum;
        e1 \<leftarrow> fdiv (lam ! 1) val_sum;
        e2 \<leftarrow> fdiv (lam ! 2) val_sum;
        l0 \<leftarrow> flog (e0 + epsilon);
        l1 \<leftarrow> flog (e1 + epsilon);
        l2 \<leftarrow> flog (e2 + epsilon);
        Some (- e0 * l0 - e1 * l1 - e2 * l2)
      })"

text \<open>Lines 31--49: the covariance matrix of the first \<^verbatim>\<open>k_nn\<close> neighbours.\<close>

definition neighborhood_cov ::
  "float list \<Rightarrow> uint32_t list \<Rightarrow> uint32_t list \<Rightarrow> size_t \<Rightarrow> size_t \<Rightarrow>
   float list list option" where
  "neighborhood_cov xyz nn nn_ptr i_point k_nn =
     do {
       cloud \<leftarrow> gather_cloud xyz nn nn_ptr i_point k_nn 0 [];
       mean \<leftarrow> colwise_mean cloud;
       covariance (centered_cloud cloud mean) k_nn
     }"

text \<open>
  Lines 54--68: the vector \<^verbatim>\<open>indices\<close> after the sort, for the eigenvalues \<open>eigenvalues\<close> of
  the solver.
\<close>

definition sorted_indices :: "(nat \<Rightarrow> float) \<Rightarrow> nat list" where
  "sorted_indices eigenvalues =
     (let ev = [eigenvalues 0, eigenvalues 1, eigenvalues 2]
      in std_sort (\<lambda>i1 i2. ev ! i1 > ev ! i2) [0, 1, 2])"

text \<open>Lines 54--121: the \<^verbatim>\<open>PCAOutput\<close> built from the solver's result \<open>es\<close>.\<close>

definition pca_output :: "(nat \<Rightarrow> float) \<times> (nat \<Rightarrow> nat \<Rightarrow> float) \<Rightarrow> pcaOutput option" where
  "pca_output es =
     (let ev = [fst es 0, fst es 1, fst es 2];
          indices = sorted_indices (fst es);
          val = [max (ev ! (indices ! 0)) 0,
                 max (ev ! (indices ! 1)) 0,
                 max (ev ! (indices ! 2)) 0];
          v0 = [snd es (indices ! 0) 0, snd es (indices ! 0) 1, snd es (indices ! 0) 2];
          v1 = [snd es (indices ! 1) 0, snd es (indices ! 1) 1, snd es (indices ! 1) 2];
          v2 = [snd es (indices ! 2) 0, snd es (indices ! 2) 1, snd es (indices ! 2) 2]
      in do {
        eigenentropy \<leftarrow> pca_eigenentropy val;
        Some \<lparr>val = val, v0 = z_plus v0, v1 = z_plus v1, v2 = z_plus v2,
              eigenentropy = eigenentropy\<rparr>
      })"

definition neighborhood_pca ::
  "EigenSolver \<Rightarrow> float list \<Rightarrow> uint32_t list \<Rightarrow> uint32_t list \<Rightarrow> size_t \<Rightarrow> size_t \<Rightarrow>
   pcaOutput option" where
  "neighborhood_pca solver xyz nn nn_ptr i_point k_nn =
     do {
       cov \<leftarrow> neighborhood_cov xyz nn nn_ptr i_point k_nn;
       pca_output (solver cov)
     }"

section \<open>\<^verbatim>\<open>compute_geometric_features\<close>\<close>

text \<open>
  Line 172: \<^verbatim>\<open>std::min(std::max(k_min, k_min_search), int(k_nn))\<close>, computed in \<^verbatim>\<open>int\<close> and
  converted to \<^verbatim>\<open>std::size_t\<close>. \<^verbatim>\<open>std::max(a, b)\<close> is \<^verbatim>\<open>(a < b) ? b : a\<close> and
  \<^verbatim>\<open>std::min(a, b)\<close> is \<^verbatim>\<open>(b < a) ? b : a\<close>.
\<close>

definition std_max :: "cint \<Rightarrow> cint \<Rightarrow> cint" where
  "std_max a b = (if sint a < sint b then b else a)"

definition std_min :: "cint \<Rightarrow> cint \<Rightarrow> cint" where
  "std_min a b = (if sint b < sint a then b else a)"

definition search_start :: "cint \<Rightarrow> cint \<Rightarrow> size_t \<Rightarrow> size_t" where
  "search_start k_min k_min_search k_nn =
     scast (std_min (std_max k_min k_min_search) (ucast k_nn :: cint))"

text \<open>\<^verbatim>\<open>k % k_step\<close> in \<^verbatim>\<open>std::size_t\<close>; a zero divisor is undefined behaviour.\<close>

definition umod :: "size_t \<Rightarrow> size_t \<Rightarrow> size_t option" where
  "umod a b = (if b = 0 then None else Some (a mod b))"

text \<open>
  Lines 174--194: the loop over \<^verbatim>\<open>k\<close>. The variables \<^verbatim>\<open>pca\<close> and \<^verbatim>\<open>k_optimal\<close> are one
  optional pair, \<open>None\<close> until the first assignment. The last argument is not in the
  source: it records, in order, the sizes \<^verbatim>\<open>k\<close> at which \<^verbatim>\<open>neighborhood_pca\<close> is
  called.
\<close>

function search_loop ::
  "EigenSolver \<Rightarrow> float list \<Rightarrow> uint32_t list \<Rightarrow> uint32_t list \<Rightarrow> size_t \<Rightarrow> size_t \<Rightarrow>
   cint \<Rightarrow> size_t \<Rightarrow> size_t \<Rightarrow> (pcaOutput \<times> size_t) option \<Rightarrow> size_t list \<Rightarrow>
   ((pcaOutput \<times> size_t) option \<times> size_t list) option" where
  "search_loop solver xyz nn nn_ptr i_point k_nn k_step k0 k pca evaluated =
     (if k < k_nn + 1 then
        do {
          skip \<leftarrow> (if k > k0 then
                    do { r \<leftarrow> umod k (scast k_step); Some (r \<noteq> 0 \<and> k \<noteq> k_nn) }
                  else Some False);
          if skip then
            search_loop solver xyz nn nn_ptr i_point k_nn k_step k0 (k + 1) pca evaluated
          else
            do {
              pca_k \<leftarrow> neighborhood_pca solver xyz nn nn_ptr i_point k;
              better \<leftarrow> (if k = k0 then Some True
                        else case pca of
                               None \<Rightarrow> None
                             | Some (p, k_optimal) \<Rightarrow>
                                 Some (eigenentropy pca_k < eigenentropy p));
              search_loop solver xyz nn nn_ptr i_point k_nn k_step k0 (k + 1)
                (if better then Some (pca_k, k) else pca) (evaluated @ [k])
            }
        }
      else Some (pca, evaluated))"
  by pat_completeness auto
termination
proof (relation "measure (\<lambda>(solver, xyz, nn, nn_ptr, i_point, k_nn, k_step, k0, k, pca, evaluated).
                            unat (k_nn + 1) - unat k)")
  show "wf (measure (\<lambda>(solver, xyz, nn, nn_ptr, i_point, k_nn, k_step, k0, k, pca, evaluated).
                            unat (k_nn + 1) - unat k))"
    by simp
next
  fix solver :: EigenSolver and xyz :: "float list" and nn nn_ptr :: "uint32_t list"
    and i_point k_nn k0 k :: size_t and k_step :: cint
    and pca :: "(pcaOutput \<times> size_t) option" and evaluated :: "size_t list" and skip :: bool
  assume "k < k_nn + 1"
  then have lt: "unat k < unat (k_nn + 1)"
    by (simp add: word_less_nat_alt)
  moreover have "unat (k_nn + 1) < 2 ^ 64"
    using unsigned_less [of "k_nn + 1"] by simp
  ultimately have "unat k + 1 < 2 ^ 64"
    by linarith
  then have "unat (k + 1) = Suc (unat k)"
    by (simp add: unat_word_ariths)
  with lt have "unat (k_nn + 1) - unat (k + 1) < unat (k_nn + 1) - unat k"
    by linarith
  then show "((solver, xyz, nn, nn_ptr, i_point, k_nn, k_step, k0, k + 1, pca, evaluated),
              (solver, xyz, nn, nn_ptr, i_point, k_nn, k_step, k0, k, pca, evaluated))
        \<in> measure (\<lambda>(solver, xyz, nn, nn_ptr, i_point, k_nn, k_step, k0, k, pca, evaluated).
                            unat (k_nn + 1) - unat k)"
    by simp
next
  fix solver :: EigenSolver and xyz :: "float list" and nn nn_ptr :: "uint32_t list"
    and i_point k_nn k0 k :: size_t and k_step :: cint
    and pca :: "(pcaOutput \<times> size_t) option" and evaluated :: "size_t list" and skip better :: bool
    and pca_k :: pcaOutput
  assume "k < k_nn + 1"
  then have lt: "unat k < unat (k_nn + 1)"
    by (simp add: word_less_nat_alt)
  moreover have "unat (k_nn + 1) < 2 ^ 64"
    using unsigned_less [of "k_nn + 1"] by simp
  ultimately have "unat k + 1 < 2 ^ 64"
    by linarith
  then have "unat (k + 1) = Suc (unat k)"
    by (simp add: unat_word_ariths)
  with lt have "unat (k_nn + 1) - unat (k + 1) < unat (k_nn + 1) - unat k"
    by linarith
  then show "((solver, xyz, nn, nn_ptr, i_point, k_nn, k_step, k0, k + 1,
               if better then Some (pca_k, k) else pca, evaluated @ [k]),
              (solver, xyz, nn, nn_ptr, i_point, k_nn, k_step, k0, k, pca, evaluated))
        \<in> measure (\<lambda>(solver, xyz, nn, nn_ptr, i_point, k_nn, k_step, k0, k, pca, evaluated).
                            unat (k_nn + 1) - unat k)"
    by simp
qed

text \<open>
  Lines 159--195: one evaluation on the whole neighbourhood when \<^verbatim>\<open>k_step < 1\<close>, the
  search otherwise.
\<close>

definition optimal_pca ::
  "EigenSolver \<Rightarrow> float list \<Rightarrow> uint32_t list \<Rightarrow> uint32_t list \<Rightarrow> size_t \<Rightarrow> size_t \<Rightarrow>
   cint \<Rightarrow> cint \<Rightarrow> cint \<Rightarrow> ((pcaOutput \<times> size_t) option \<times> size_t list) option" where
  "optimal_pca solver xyz nn nn_ptr i_point k_nn k_min k_step k_min_search =
     (if sint k_step < 1 then
        do {
          pca \<leftarrow> neighborhood_pca solver xyz nn nn_ptr i_point k_nn;
          Some (Some (pca, k_nn), [k_nn])
        }
      else
        let k0 = search_start k_min k_min_search k_nn
        in search_loop solver xyz nn nn_ptr i_point k_nn k_step k0 k0 None [])"

text \<open>
  Lines 218--232: the verticality, for \<^verbatim>\<open>val0\<close> the square root of the first eigenvalue.
\<close>

definition verticality_of :: "pcaOutput \<Rightarrow> float \<Rightarrow> float option" where
  "verticality_of pca val0 =
     (if val0 > 0 then
        do {
          l0 \<leftarrow> rd (val pca) 0; l1 \<leftarrow> rd (val pca) 1; l2 \<leftarrow> rd (val pca) 2;
          v00 \<leftarrow> rd (v0 pca) 0; v10 \<leftarrow> rd (v1 pca) 0; v20 \<leftarrow> rd (v2 pca) 0;
          v01 \<leftarrow> rd (v0 pca) 1; v11 \<leftarrow> rd (v1 pca) 1; v21 \<leftarrow> rd (v2 pca) 1;
          v02 \<leftarrow> rd (v0 pca) 2; v12 \<leftarrow> rd (v1 pca) 2; v22 \<leftarrow> rd (v2 pca) 2;
          let unary_vector =
                [l0 * \<bar>v00\<bar> + l1 * \<bar>v10\<bar> + l2 * \<bar>v20\<bar>,
                 l0 * \<bar>v01\<bar> + l1 * \<bar>v11\<bar> + l2 * \<bar>v21\<bar>,
                 l0 * \<bar>v02\<bar> + l1 * \<bar>v12\<bar> + l2 * \<bar>v22\<bar>];
          norm \<leftarrow> fsqrt (unary_vector ! 0 * unary_vector ! 0
                         + unary_vector ! 1 * unary_vector ! 1
                         + unary_vector ! 2 * unary_vector ! 2);
          fdiv (unary_vector ! 2) norm
        }
      else Some 0)"

text \<open>
  Lines 197--232: the eleven features of the retained \<^verbatim>\<open>pca\<close>, in the order in which
  lines 235--245 store them. \<^verbatim>\<open>1e-3\<close>, \<^verbatim>\<open>1e-6\<close>, \<^verbatim>\<open>1e-9\<close> and \<^verbatim>\<open>1 / 3.\<close> are written out.
\<close>

definition point_features :: "pcaOutput \<Rightarrow> float list option" where
  "point_features pca =
     do {
       l0 \<leftarrow> rd (val pca) 0; l1 \<leftarrow> rd (val pca) 1; l2 \<leftarrow> rd (val pca) 2;
       val0 \<leftarrow> fsqrt l0;
       val1 \<leftarrow> fsqrt l1;
       val2 \<leftarrow> fsqrt l2;
       linearity \<leftarrow> fdiv (val0 - val1) (val0 + 0.001);
       planarity \<leftarrow> fdiv (val1 - val2) (val0 + 0.001);
       scattering \<leftarrow> fdiv val2 (val0 + 0.001);
       surface \<leftarrow> fsqrt (val0 * val1 + 0.000001);
       volume \<leftarrow> fpow (val0 * val1 * val2 + 0.000000001) (1 / 3);
       curvature \<leftarrow> fdiv val2 (val0 + val1 + val2 + 0.001);
       verticality \<leftarrow> verticality_of pca val0;
       n0 \<leftarrow> rd (v2 pca) 0; n1 \<leftarrow> rd (v2 pca) 1; n2 \<leftarrow> rd (v2 pca) 2;
       Some [linearity, planarity, scattering, verticality, n0, n1, n2,
             val0, surface, volume, curvature]
     }"

text \<open>
  Lines 142--152 and 235--245: the eleven stores \<^verbatim>\<open>features[i_point * 11 + j] = ...\<close>, the
  index computed in \<^verbatim>\<open>std::size_t\<close>.
\<close>

definition store_features :: "float list \<Rightarrow> size_t \<Rightarrow> float list \<Rightarrow> float list option" where
  "store_features features i_point fs =
     do {
       f \<leftarrow> wr features (i_point * 11 + 0) (fs ! 0);
       f \<leftarrow> wr f (i_point * 11 + 1) (fs ! 1);
       f \<leftarrow> wr f (i_point * 11 + 2) (fs ! 2);
       f \<leftarrow> wr f (i_point * 11 + 3) (fs ! 3);
       f \<leftarrow> wr f (i_point * 11 + 4) (fs ! 4);
       f \<leftarrow> wr f (i_point * 11 + 5) (fs ! 5);
       f \<leftarrow> wr f (i_point * 11 + 6) (fs ! 6);
       f \<leftarrow> wr f (i_point * 11 + 7) (fs ! 7);
       f \<leftarrow> wr f (i_point * 11 + 8) (fs ! 8);
       f \<leftarrow> wr f (i_point * 11 + 9) (fs ! 9);
       wr f (i_point * 11 + 10) (fs ! 10)
     }"

text \<open>
  The four buffers of \<^verbatim>\<open>compute_geometric_features\<close>, and the body of its loop for one
  \<^verbatim>\<open>i_point\<close> (lines 135--245). The body returns the buffers and the sizes at which it
  called \<^verbatim>\<open>neighborhood_pca\<close>. In the guard of line 140, \<^verbatim>\<open>k_nn < k_min\<close> converts
  \<^verbatim>\<open>k_min\<close> to \<^verbatim>\<open>std::size_t\<close>. The progress counter and the printing of lines 247--262
  touch none of the buffers and are left out.
\<close>

record buffers =
  xyz_buf :: "float list"
  nn_buf :: "uint32_t list"
  nn_ptr_buf :: "uint32_t list"
  features_buf :: "float list"

definition point_step ::
  "EigenSolver \<Rightarrow> cint \<Rightarrow> cint \<Rightarrow> cint \<Rightarrow> size_t \<Rightarrow> buffers \<Rightarrow>
   (buffers \<times> size_t list) option" where
  "point_step solver k_min k_step k_min_search i_point m =
     do {
       p1 \<leftarrow> rd (nn_ptr_buf m) (i_point + 1);
       p0 \<leftarrow> rd (nn_ptr_buf m) i_point;
       let k_nn = (ucast (p1 - p0) :: size_t);
       if k_nn < scast k_min \<or> k_nn \<le> 0 then
         do {
           f \<leftarrow> store_features (features_buf m) i_point [0, 0, 0, 0, 0, 0, 0, 0, 0, 0, 0];
           Some (m\<lparr>features_buf := f\<rparr>, [])
         }
       else
         do {
           (best, evaluated) \<leftarrow>
             optimal_pca solver (xyz_buf m) (nn_buf m) (nn_ptr_buf m) i_point k_nn
               k_min k_step k_min_search;
           (pca, k_optimal) \<leftarrow> best;
           fs \<leftarrow> point_features pca;
           f \<leftarrow> store_features (features_buf m) i_point fs;
           Some (m\<lparr>features_buf := f\<rparr>, evaluated)
         }
     }"

text \<open>
  Lines 133--256: the loop over the points, run in the order of \<^verbatim>\<open>i_point\<close>. The
  comparison \<^verbatim>\<open>i_point < n_points\<close> converts \<^verbatim>\<open>n_points\<close> to \<^verbatim>\<open>std::size_t\<close>.
\<close>

function points_loop ::
  "EigenSolver \<Rightarrow> cint \<Rightarrow> cint \<Rightarrow> cint \<Rightarrow> cint \<Rightarrow> size_t \<Rightarrow> buffers \<Rightarrow> buffers option" where
  "points_loop solver n_points k_min k_step k_min_search i_point m =
     (if i_point < scast n_points then
        do {
          (m', evaluated) \<leftarrow> point_step solver k_min k_step k_min_search i_point m;
          points_loop solver n_points k_min k_step k_min_search (i_point + 1) m'
        }
      else Some m)"
  by pat_completeness auto
termination
proof (relation "measure (\<lambda>(solver, n_points, k_min, k_step, k_min_search, i_point, m).
                            unat (scast n_points :: size_t) - unat i_point)")
  show "wf (measure (\<lambda>(solver, n_points, k_min, k_step, k_min_search, i_point, m).
                            unat (scast n_points :: size_t) - unat i_point))"
    by simp
next
  fix solver :: EigenSolver and n_points k_min k_step k_min_search :: cint
    and i_point :: size_t and m m' :: buffers and x :: "buffers \<times> size_t list"
    and evaluated :: "size_t list"
  assume "i_point < scast n_points"
  then have lt: "unat i_point < unat (scast n_points :: size_t)"
    by (simp add: word_less_nat_alt)
  moreover have "unat (scast n_points :: size_t) < 2 ^ 64"
    using unsigned_less [of "scast n_points :: size_t"] by simp
  ultimately have "unat i_point + 1 < 2 ^ 64"
    by linarith
  then have "unat (i_point + 1) = Suc (unat i_point)"
    by (simp add: unat_word_ariths)
  with lt have "unat (scast n_points :: size_t) - unat (i_point + 1)
                  < unat (scast n_points :: size_t) - unat i_point"
    by linarith
  then show "((solver, n_points, k_min, k_step, k_min_search, i_point + 1, m'),
              (solver, n_points, k_min, k_step, k_min_search, i_point, m))
        \<in> measure (\<lambda>(solver, n_points, k_min, k_step, k_min_search, i_point, m).
                            unat (scast n_points :: size_t) - unat i_point)"
    by simp
qed

definition compute_geometric_features ::
  "EigenSolver \<Rightarrow> float list \<Rightarrow> uint32_t list \<Rightarrow> uint32_t list \<Rightarrow> cint \<Rightarrow> float list \<Rightarrow>
   cint \<Rightarrow> cint \<Rightarrow> cint \<Rightarrow> bool \<Rightarrow> buffers option" where
  "compute_geometric_features solver xyz nn nn_ptr n_points features
     k_min k_step k_min_search verbose =
     points_loop solver n_points k_min k_step k_min_search 0
       \<lparr>xyz_buf = xyz, nn_buf = nn, nn_ptr_buf = nn_ptr, features_buf = features\<rparr>"

text \<open>
  Line 178: the body of the loop goes on to \<^verbatim>\<open>neighborhood_pca\<close> at \<^verbatim>\<open>k\<close> unless
  \<^verbatim>\<open>(k > k0) && (k % k_step != 0) && (k != k_nn)\<close>, that is, when the predicate below holds
  of \<^verbatim>\<open>k\<close> and of \<^verbatim>\<open>k_step\<close> converted to \<^verbatim>\<open>std::size_t\<close>.
\<close>

definition candidate :: "size_t \<Rightarrow> size_t \<Rightarrow> size_t \<Rightarrow> size_t \<Rightarrow> bool" where
  "candidate k0 s k_nn k \<longleftrightarrow> k \<le> k0 \<or> k mod s = 0 \<or> k = k_nn"

section \<open>The candidate sizes as the specification words them\<close>

text \<open>
  The specification's candidate sizes of the adaptive search: \<open>k0\<close>, \<open>k0 + k_step\<close>,
  \<open>k0 + 2 * k_step\<close>, ..., as long as they do not exceed \<open>k_nn\<close>, and \<open>k_nn\<close> itself. This
  definition follows the specification, not the source.
\<close>

definition spec_candidates :: "nat \<Rightarrow> nat \<Rightarrow> nat \<Rightarrow> nat list" where
  "spec_candidates k0 k_step k_nn =
     [k0 + j * k_step. j \<leftarrow> [0 ..< Suc (k_nn - k0)], k0 + j * k_step \<le> k_nn] @ [k_nn]"

section \<open>A concrete input\<close>

text \<open>
  Three points on the x axis, \<open>(32, 0, 0)\<close>, \<open>(-32, 0, 0)\<close> and \<open>(0, 0, 0)\<close>; each point has
  the three points as its neighbours, itself first. The covariance matrix of any prefix of
  such a neighbourhood is diagonal, and \<open>ex_solver\<close> is an eigensolver for diagonal
  matrices: the eigenvalues are the diagonal entries and the eigenvectors are the
  negated unit vectors. The output buffer holds \<open>7\<close> everywhere before the call.
\<close>

definition ex_solver :: EigenSolver where
  "ex_solver cov = (\<lambda>i. cov ! i ! i, \<lambda>j r. if r = j then - 1 else 0)"

definition ex_xyz :: "float list" where
  "ex_xyz = [32, 0, 0, - 32, 0, 0, 0, 0, 0]"

definition ex_nn :: "uint32_t list" where
  "ex_nn = [0, 1, 2, 1, 0, 2, 2, 0, 1]"

definition ex_nn_ptr :: "uint32_t list" where
  "ex_nn_ptr = [0, 3, 6, 9]"

definition ex_features :: "float list" where
  "ex_features = replicate 33 7"

definition ex_buffers :: buffers where
  "ex_buffers = \<lparr>xyz_buf = ex_xyz, nn_buf = ex_nn, nn_ptr_buf = ex_nn_ptr,
                  features_buf = ex_features\<rparr>"

declare gather_cloud.simps [simp del]
declare search_loop.simps [simp del]
declare points_loop.simps [simp del]

section \<open>Machine words\<close>

lemma unat_succ: "(k::'a::len word) < m \<Longrightarrow> unat (k + 1) = Suc (unat k)"
proof -
  assume "k < m"
  then have "unat k < unat m" by (simp add: word_less_nat_alt)
  moreover have "unat m < 2 ^ LENGTH('a)" by (rule unsigned_less)
  ultimately have "unat k + 1 < 2 ^ LENGTH('a)" by linarith
  then show ?thesis by (simp add: unat_word_ariths)
qed

lemma word_le_succ: "(k::'a::len word) < m \<Longrightarrow> k \<le> j \<longleftrightarrow> j = k \<or> k + 1 \<le> j"
  by (auto simp: word_le_nat_alt unat_succ word_unat_eq_iff)

lemma word_lt_succ: "(k::'a::len word) < m \<Longrightarrow> k0 \<le> k \<Longrightarrow> k0 < k + 1"
  by (simp add: word_le_nat_alt word_less_nat_alt unat_succ)

lemma unat_ucast_32_64: "unat (ucast (d :: 32 word) :: 64 word) = unat d"
proof -
  have "unat d < 2 ^ 32" using unsigned_less [of d, where 'a = nat] by simp
  then have "unat d < 2 ^ 64" by simp
  then have "take_bit 64 (unat d) = unat d" by (intro take_bit_nat_eq_self) simp
  then show ?thesis by (simp add: unsigned_ucast_eq)
qed

lemma uint_scast_32_64:
  "uint (scast (k :: 32 word) :: 64 word) = (if sint k < 0 then 2 ^ 64 + sint k else sint k)"
proof -
  have r: "- (2 ^ 31) \<le> sint k" "sint k < 2 ^ 31"
    using sint_ge [of k] sint_lt [of k] by simp_all
  have "uint (scast k :: 64 word) = uint (word_of_int (sint k) :: 64 word)"
    by (simp only: scast_eq)
  also have "\<dots> = sint k mod 2 ^ LENGTH(64)"
    by (rule uint_word_of_int)
  also have "\<dots> = sint k mod 2 ^ 64" by simp
  also have "\<dots> = (if sint k < 0 then 2 ^ 64 + sint k else sint k)"
  proof (cases "sint k < 0")
    case True
    have "sint k mod 2 ^ 64 = (sint k + 2 ^ 64) mod 2 ^ 64" by simp
    also have "\<dots> = sint k + 2 ^ 64" using r True by (intro mod_pos_pos_trivial) simp_all
    finally show ?thesis using True by simp
  next
    case False
    then have "sint k mod 2 ^ 64 = sint k" using r by (intro mod_pos_pos_trivial) simp_all
    then show ?thesis using False by simp
  qed
  finally show ?thesis .
qed

lemma guard_iff:
  "(ucast (d :: 32 word) :: 64 word) < scast (k_min :: 32 word) \<longleftrightarrow>
     sint k_min < 0 \<or> int (unat d) < sint k_min"
proof -
  have d: "uint (ucast d :: 64 word) = int (unat d)"
    by (simp only: uint_nat unat_ucast_32_64)
  have "uint d < 2 ^ 32" using uint_bounded [of d] by simp
  then have "int (unat d) < 2 ^ 32" by (simp only: uint_nat)
  moreover have "- (2 ^ 31) \<le> sint k_min" using sint_ge [of k_min] by simp
  ultimately show ?thesis
    unfolding word_less_def d uint_scast_32_64 by auto
qed

lemma ucast_eq_zero: "(ucast (d :: 32 word) :: 64 word) = 0 \<longleftrightarrow> d = 0"
  using unat_ucast_32_64 [of d] by (metis unat_eq_zero)

lemma unat_scast_nonneg:
  assumes "0 \<le> sint (n :: 32 word)"
  shows "unat (scast n :: 64 word) = nat (sint n)"
  using assms uint_scast_32_64 [of n] by (simp add: unat_eq_nat_uint)

lemma less_11_cases:
  "(j::nat) < 11 \<Longrightarrow>
   j = 0 \<or> j = 1 \<or> j = 2 \<or> j = 3 \<or> j = 4 \<or> j = 5 \<or> j = 6 \<or> j = 7 \<or> j = 8 \<or> j = 9 \<or> j = 10"
  by (simp add: numeral_eq_Suc less_Suc_eq)

lemma all_less_11:
  "(\<forall>j<11. P (j::nat)) \<longleftrightarrow>
   P 0 \<and> P 1 \<and> P 2 \<and> P 3 \<and> P 4 \<and> P 5 \<and> P 6 \<and> P 7 \<and> P 8 \<and> P 9 \<and> P 10"
proof
  assume "\<forall>j<11. P j"
  then show "P 0 \<and> P 1 \<and> P 2 \<and> P 3 \<and> P 4 \<and> P 5 \<and> P 6 \<and> P 7 \<and> P 8 \<and> P 9 \<and> P 10" by simp
next
  assume r: "P 0 \<and> P 1 \<and> P 2 \<and> P 3 \<and> P 4 \<and> P 5 \<and> P 6 \<and> P 7 \<and> P 8 \<and> P 9 \<and> P 10"
  show "\<forall>j<11. P j"
  proof (intro allI impI)
    fix j :: nat assume "j < 11"
    from less_11_cases [OF this] r show "P j" by auto
  qed
qed

lemma slot_index:
  assumes "unat (i :: size_t) < 2 ^ 31" and "j \<le> 10"
  shows "unat (i * 11 + of_nat j) = 11 * unat i + j"
proof -
  have "11 * unat i + j < 2 ^ 64" using assms by simp
  moreover have "unat (of_nat j :: size_t) = j" using assms(2) by (simp add: unat_of_nat)
  moreover have "unat (i * 11) = 11 * unat i"
    using assms(1) by (simp add: unat_word_ariths)
  ultimately show ?thesis
    by (simp add: unat_word_ariths)
qed

lemma slot_indices:
  assumes "unat (i :: size_t) < 2 ^ 31"
  shows "unat (i * 11 + 0) = 11 * unat i + 0" "unat (i * 11 + 1) = 11 * unat i + 1"
    "unat (i * 11 + 2) = 11 * unat i + 2" "unat (i * 11 + 3) = 11 * unat i + 3"
    "unat (i * 11 + 4) = 11 * unat i + 4" "unat (i * 11 + 5) = 11 * unat i + 5"
    "unat (i * 11 + 6) = 11 * unat i + 6" "unat (i * 11 + 7) = 11 * unat i + 7"
    "unat (i * 11 + 8) = 11 * unat i + 8" "unat (i * 11 + 9) = 11 * unat i + 9"
    "unat (i * 11 + 10) = 11 * unat i + 10"
  using slot_index [OF assms, of 0] slot_index [OF assms, of 1] slot_index [OF assms, of 2]
    slot_index [OF assms, of 3] slot_index [OF assms, of 4] slot_index [OF assms, of 5]
    slot_index [OF assms, of 6] slot_index [OF assms, of 7] slot_index [OF assms, of 8]
    slot_index [OF assms, of 9] slot_index [OF assms, of 10]
  by simp_all

section \<open>Checked operations\<close>

lemma rd_bind: "(rd xs i \<bind> f) = Some y \<longleftrightarrow> unat i < length xs \<and> f (xs ! unat i) = Some y"
  by (simp add: rd_def)

lemma rd_Some: "rd xs i = Some x \<longleftrightarrow> unat i < length xs \<and> x = xs ! unat i"
  by (auto simp: rd_def)

lemma fsqrt_bind: "(fsqrt x \<bind> f) = Some y \<longleftrightarrow> 0 \<le> x \<and> f (sqrt x) = Some y"
  by (simp add: fsqrt_def)

lemma fdiv_bind: "(fdiv x d \<bind> f) = Some y \<longleftrightarrow> d \<noteq> 0 \<and> f (x / d) = Some y"
  by (simp add: fdiv_def)

lemma fpow_bind:
  "(fpow x e \<bind> f) = Some y \<longleftrightarrow> \<not> (x < 0 \<or> (x = 0 \<and> e \<le> 0)) \<and> f (x powr e) = Some y"
  by (simp add: fpow_def)

lemma fdiv_Some: "fdiv x d = Some y \<longleftrightarrow> d \<noteq> 0 \<and> y = x / d"
  by (auto simp: fdiv_def)

section \<open>The sort, the clamp and the eigenentropy\<close>

lemma sorted_indices_desc:
  "f (sorted_indices f ! 0) \<ge> f (sorted_indices f ! 1) \<and>
   f (sorted_indices f ! 1) \<ge> f (sorted_indices f ! 2)"
  by (simp add: sorted_indices_def std_sort_def Let_def)

lemma sorted_indices_cases:
  "sorted_indices f \<in> {[0, 1, 2], [0, 2, 1], [1, 0, 2], [1, 2, 0], [2, 0, 1], [2, 1, 0]}"
  by (simp add: sorted_indices_def std_sort_def Let_def)

lemma ev_nth_sorted:
  "[f 0, f 1, f 2] ! (sorted_indices f ! 0) = f (sorted_indices f ! 0)"
  "[f 0, f 1, f 2] ! (sorted_indices f ! 1) = f (sorted_indices f ! 1)"
  "[f 0, f 1, f 2] ! (sorted_indices f ! 2) = f (sorted_indices f ! 2)"
  using sorted_indices_cases [of f] by auto

text \<open>
  The eigenentropy of three non-negative numbers is a number (every division and every
  logarithm is defined), it is above \<open>- 0.001\<close>, and it is not negative when no
  \<open>e\<^sub>i + 0.001\<close> exceeds one.
\<close>

lemma pca_eigenentropy_Some:
  assumes "0 \<le> a" "0 \<le> b" "0 \<le> c"
  shows "\<exists>h. pca_eigenentropy [a, b, c] = Some h \<and> - 0.001 < h \<and>
         (a / (a + b + c + 0.001) + 0.001 \<le> 1 \<and> b / (a + b + c + 0.001) + 0.001 \<le> 1
           \<and> c / (a + b + c + 0.001) + 0.001 \<le> 1 \<longrightarrow> 0 \<le> h)"
proof -
  define s where "s = a + b + c + 0.001"
  have s: "0 < s" using assms by (simp add: s_def)
  define e0 e1 e2 where "e0 = a / s" and "e1 = b / s" and "e2 = c / s"
  have e: "0 \<le> e0" "0 \<le> e1" "0 \<le> e2" using assms s by (simp_all add: e0_def e1_def e2_def)
  have "e0 + e1 + e2 = (a + b + c) / s" by (simp add: e0_def e1_def e2_def add_divide_distrib)
  also have "\<dots> < 1" using s by (simp add: s_def)
  finally have sum: "e0 + e1 + e2 < 1" .
  have bound: "x * ln (x + 0.001) \<le> x * 0.001" if "0 \<le> x" "x < 1" for x :: real
  proof -
    have "ln (x + 0.001) \<le> x + 0.001 - 1"
      using that by (intro ln_le_minus_one) simp
    also have "\<dots> \<le> 0.001" using that by simp
    finally show ?thesis using that by (intro mult_left_mono) simp_all
  qed
  have nonpos: "x * ln (x + 0.001) \<le> 0" if "0 \<le> x" "x + 0.001 \<le> 1" for x :: real
  proof -
    have "ln (x + 0.001) \<le> 0" using that by (intro ln_le_zero_iff[THEN iffD2]) simp_all
    then show ?thesis using that by (simp add: mult_nonneg_nonpos)
  qed
  define h where "h = - e0 * ln (e0 + 0.001) - e1 * ln (e1 + 0.001) - e2 * ln (e2 + 0.001)"
  have d: "fdiv a (a + b + c + 0.001) = Some e0" "fdiv b (a + b + c + 0.001) = Some e1"
    "fdiv c (a + b + c + 0.001) = Some e2"
    using s by (simp_all add: fdiv_def e0_def e1_def e2_def s_def)
  have l: "flog (e0 + 0.001) = Some (ln (e0 + 0.001))" "flog (e1 + 0.001) = Some (ln (e1 + 0.001))"
    "flog (e2 + 0.001) = Some (ln (e2 + 0.001))"
    using e by (simp_all add: flog_def)
  have eq: "pca_eigenentropy [a, b, c] = Some h"
    by (simp add: pca_eigenentropy_def Let_def d [simplified] l [simplified] h_def)
  have lt1: "e0 < 1" "e1 < 1" "e2 < 1" using e sum by linarith+
  have "- (0.001 * (e0 + e1 + e2)) \<le> h"
    using bound [OF e(1) lt1(1)] bound [OF e(2) lt1(2)] bound [OF e(3) lt1(3)]
    by (simp add: h_def algebra_simps)
  moreover have "- 0.001 < - (0.001 * (e0 + e1 + e2))" using sum by simp
  ultimately have low: "- 0.001 < h" by linarith
  have "0 \<le> h" if "e0 + 0.001 \<le> 1" "e1 + 0.001 \<le> 1" "e2 + 0.001 \<le> 1"
    using nonpos [OF e(1) that(1)] nonpos [OF e(2) that(2)] nonpos [OF e(3) that(3)]
    by (simp add: h_def)
  then show ?thesis using eq low by (simp add: e0_def e1_def e2_def s_def)
qed



lemma pca_output_unfold:
  "pca_output es =
     do {
       h \<leftarrow> pca_eigenentropy [max (fst es (sorted_indices (fst es) ! 0)) 0,
                               max (fst es (sorted_indices (fst es) ! 1)) 0,
                               max (fst es (sorted_indices (fst es) ! 2)) 0];
       Some \<lparr>val = [max (fst es (sorted_indices (fst es) ! 0)) 0,
                    max (fst es (sorted_indices (fst es) ! 1)) 0,
                    max (fst es (sorted_indices (fst es) ! 2)) 0],
             v0 = z_plus [snd es (sorted_indices (fst es) ! 0) 0,
                          snd es (sorted_indices (fst es) ! 0) 1,
                          snd es (sorted_indices (fst es) ! 0) 2],
             v1 = z_plus [snd es (sorted_indices (fst es) ! 1) 0,
                          snd es (sorted_indices (fst es) ! 1) 1,
                          snd es (sorted_indices (fst es) ! 1) 2],
             v2 = z_plus [snd es (sorted_indices (fst es) ! 2) 0,
                          snd es (sorted_indices (fst es) ! 2) 1,
                          snd es (sorted_indices (fst es) ! 2) 2],
             eigenentropy = h\<rparr>
     }"
  unfolding pca_output_def Let_def ev_nth_sorted ..

lemma pca_output_total: "\<exists>p. pca_output es = Some p"
proof -
  obtain h where "pca_eigenentropy [max (fst es (sorted_indices (fst es) ! 0)) 0,
                               max (fst es (sorted_indices (fst es) ! 1)) 0,
                               max (fst es (sorted_indices (fst es) ! 2)) 0] = Some h"
    using pca_eigenentropy_Some [of "max (fst es (sorted_indices (fst es) ! 0)) 0"
        "max (fst es (sorted_indices (fst es) ! 1)) 0"
        "max (fst es (sorted_indices (fst es) ! 2)) 0"]
    by auto
  then show ?thesis by (simp add: pca_output_unfold)
qed

lemma neighborhood_pca_total:
  "neighborhood_cov xyz nn nn_ptr i_point k_nn = Some cov \<Longrightarrow>
   \<exists>p. neighborhood_pca solver xyz nn nn_ptr i_point k_nn = Some p"
  using pca_output_total [of "solver cov"] by (simp add: neighborhood_pca_def)

lemma pca_output_val:
  assumes "pca_output es = Some p"
  shows "\<exists>a b c. val p = [a, b, c] \<and> a \<ge> b \<and> b \<ge> c \<and> c \<ge> 0"
proof -
  from assms have "val p = [max (fst es (sorted_indices (fst es) ! 0)) 0,
                    max (fst es (sorted_indices (fst es) ! 1)) 0,
                    max (fst es (sorted_indices (fst es) ! 2)) 0]"
    by (auto simp: pca_output_unfold bind_eq_Some_conv)
  moreover have
    "max (fst es (sorted_indices (fst es) ! 1)) 0 \<le> max (fst es (sorted_indices (fst es) ! 0)) 0"
    "max (fst es (sorted_indices (fst es) ! 2)) 0 \<le> max (fst es (sorted_indices (fst es) ! 1)) 0"
    using sorted_indices_desc [of "fst es"] by linarith+
  ultimately show ?thesis by simp
qed

section \<open>The covariance matrix\<close>

lemma gather_step:
  "i_nei < k_nn \<Longrightarrow> gather_cloud xyz nn nn_ptr i_point k_nn i_nei cloud =
        do {
          p \<leftarrow> rd nn_ptr i_point;
          n \<leftarrow> rd nn (ucast p + i_nei);
          let idx_nei = (ucast n :: size_t);
          x \<leftarrow> rd xyz (3 * idx_nei);
          y \<leftarrow> rd xyz (3 * idx_nei + 1);
          z \<leftarrow> rd xyz (3 * idx_nei + 2);
          gather_cloud xyz nn nn_ptr i_point k_nn (i_nei + 1) (cloud @ [[x, y, z]])
        }"
  by (subst gather_cloud.simps) simp

lemma gather_exit:
  "\<not> i_nei < k_nn \<Longrightarrow> gather_cloud xyz nn nn_ptr i_point k_nn i_nei cloud = Some cloud"
  by (subst gather_cloud.simps) simp

text \<open>
  The covariance matrix is computed whenever \<open>k_nn\<close> is not zero and every read of the loop
  of lines 35--44 is in range.
\<close>

lemma gather_cloud_total:
  assumes "unat i_point < length nn_ptr" and "unat k_nn < 2 ^ 32"
    and "\<forall>j<unat k_nn. unat (nn_ptr ! unat i_point) + j < length nn \<and>
           3 * unat (nn ! (unat (nn_ptr ! unat i_point) + j)) + 2 < length xyz"
    and "unat i_nei \<le> unat k_nn"
  shows "\<exists>c. gather_cloud xyz nn nn_ptr i_point k_nn i_nei cloud = Some c \<and>
             length c = length cloud + (unat k_nn - unat i_nei)"
  using assms(4)
proof (induction "unat k_nn - unat i_nei" arbitrary: i_nei cloud rule: less_induct)
  case less
  show ?case
  proof (cases "i_nei < k_nn")
    case False
    then have "unat i_nei = unat k_nn"
      using less.prems by (simp add: word_less_nat_alt)
    with False show ?thesis by (simp add: gather_exit)
  next
    case True
    then have lt: "unat i_nei < unat k_nn" by (simp add: word_less_nat_alt)
    have s: "unat (i_nei + 1) = Suc (unat i_nei)" using True by (rule unat_succ)
    define p where "p = nn_ptr ! unat i_point"
    have rp: "rd nn_ptr i_point = Some p"
      using assms(1) by (simp add: rd_def p_def)
    have p32: "unat p < 2 ^ 32" using unsigned_less [of p, where 'a = nat] by simp
    have "unat (ucast p :: size_t) + unat i_nei < 2 ^ 64"
      using p32 lt assms(2) by (simp add: unat_ucast_32_64)
    then have a: "unat (ucast p + i_nei :: size_t) = unat p + unat i_nei"
      by (simp add: unat_add_lem [THEN iffD1] unat_ucast_32_64)
    from assms(3) lt have b: "unat p + unat i_nei < length nn"
      "3 * unat (nn ! (unat p + unat i_nei)) + 2 < length xyz"
      by (simp_all add: p_def)
    define n where "n = nn ! (unat p + unat i_nei)"
    have rn: "rd nn (ucast p + i_nei) = Some n"
      using b(1) by (simp add: rd_def a n_def)
    have n32: "unat n < 2 ^ 32" using unsigned_less [of n, where 'a = nat] by simp
    have i0: "unat (3 * (ucast n :: size_t)) = 3 * unat n"
      using n32 by (simp add: unat_word_ariths unat_ucast_32_64)
    have i1: "unat (3 * (ucast n :: size_t) + 1) = 3 * unat n + 1"
      using n32 i0 by (simp add: unat_word_ariths unat_ucast_32_64)
    have i2: "unat (3 * (ucast n :: size_t) + 2) = 3 * unat n + 2"
      using n32 i0 by (simp add: unat_word_ariths unat_ucast_32_64)
    from b(2) have b2: "3 * unat n + 2 < length xyz" by (simp add: n_def)
    then have rx: "rd xyz (3 * ucast n) = Some (xyz ! (3 * unat n))"
      "rd xyz (3 * ucast n + 1) = Some (xyz ! (3 * unat n + 1))"
      "rd xyz (3 * ucast n + 2) = Some (xyz ! (3 * unat n + 2))"
      by (simp_all add: rd_def i0 i1 i2)
    have step: "gather_cloud xyz nn nn_ptr i_point k_nn i_nei cloud =
                gather_cloud xyz nn nn_ptr i_point k_nn (i_nei + 1)
                  (cloud @ [[xyz ! (3 * unat n), xyz ! (3 * unat n + 1), xyz ! (3 * unat n + 2)]])"
      by (simp add: gather_step [OF True] rp rn rx Let_def)
    have "\<exists>c. gather_cloud xyz nn nn_ptr i_point k_nn (i_nei + 1)
                  (cloud @ [[xyz ! (3 * unat n), xyz ! (3 * unat n + 1), xyz ! (3 * unat n + 2)]])
               = Some c \<and>
             length c = length (cloud @ [[xyz ! (3 * unat n), xyz ! (3 * unat n + 1),
                                           xyz ! (3 * unat n + 2)]])
                        + (unat k_nn - unat (i_nei + 1))"
      using lt by (intro less.hyps) (simp_all add: s)
    with step lt show ?thesis by (auto simp: s)
  qed
qed

lemma neighborhood_cov_total:
  assumes "k_nn \<noteq> 0" and "unat i_point < length nn_ptr" and "unat k_nn < 2 ^ 32"
    and "\<forall>j<unat k_nn. unat (nn_ptr ! unat i_point) + j < length nn \<and>
           3 * unat (nn ! (unat (nn_ptr ! unat i_point) + j)) + 2 < length xyz"
  shows "\<exists>cov. neighborhood_cov xyz nn nn_ptr i_point k_nn = Some cov"
proof -
  from gather_cloud_total [OF assms(2-4), of 0 "[]"] obtain c where
    c: "gather_cloud xyz nn nn_ptr i_point k_nn 0 [] = Some c" and len: "length c = unat k_nn"
    by auto
  from assms(1) have nz: "unat k_nn \<noteq> 0" by (simp add: unat_eq_zero)
  have r: "real (unat k_nn) \<noteq> 0" using nz by (simp only: of_nat_eq_0_iff not_False_eq_True)
  have "length c \<noteq> 0" using nz len by (simp only: not_False_eq_True)
  then obtain mean where "colwise_mean c = Some mean"
    by (simp add: colwise_mean_def fdiv_def)
  moreover have "\<exists>cov. covariance (centered_cloud c mean) k_nn = Some cov"
    unfolding covariance_def cov_row_def cov_entry_def fdiv_def
    by (simp only: r if_False Option.bind.simps) blast
  ultimately show ?thesis
    by (simp add: neighborhood_cov_def c)
qed

section \<open>The concrete input, evaluated\<close>

lemma ex_cov1:
  "neighborhood_cov ex_xyz ex_nn ex_nn_ptr 0 1 = Some [[0, 0, 0], [0, 0, 0], [0, 0, 0]]"
  by (simp add: neighborhood_cov_def gather_step gather_exit rd_def ex_xyz_def ex_nn_def
      ex_nn_ptr_def colwise_mean_def fdiv_def centered_cloud_def covariance_def cov_row_def
      cov_entry_def)

lemma ex_cov2:
  "neighborhood_cov ex_xyz ex_nn ex_nn_ptr 0 2 = Some [[1024, 0, 0], [0, 0, 0], [0, 0, 0]]"
  by (simp add: neighborhood_cov_def gather_step gather_exit rd_def ex_xyz_def ex_nn_def
      ex_nn_ptr_def colwise_mean_def fdiv_def centered_cloud_def covariance_def cov_row_def
      cov_entry_def)

lemma ex_cov3:
  "neighborhood_cov ex_xyz ex_nn ex_nn_ptr 0 3 = Some [[2048 / 3, 0, 0], [0, 0, 0], [0, 0, 0]]"
  by (simp add: neighborhood_cov_def gather_step gather_exit rd_def ex_xyz_def ex_nn_def
      ex_nn_ptr_def colwise_mean_def fdiv_def centered_cloud_def covariance_def cov_row_def
      cov_entry_def)

lemma ex_sorted_indices:
  "0 \<le> a \<Longrightarrow> sorted_indices (fst (ex_solver [[a, 0, 0], [0, 0, 0], [0, 0, 0]])) = [0, 1, 2]"
  by (simp add: sorted_indices_def std_sort_def ex_solver_def Let_def)

lemma ex_pca_output:
  assumes "0 \<le> a"
  shows "\<exists>h. pca_output (ex_solver [[a, 0, 0], [0, 0, 0], [0, 0, 0]]) =
           Some \<lparr>val = [a, 0, 0], v0 = [- 1, 0, 0], v1 = [0, - 1, 0], v2 = [0, 0, 1],
                 eigenentropy = h\<rparr> \<and>
           pca_eigenentropy [a, 0, 0] = Some h"
proof -
  obtain h where h: "pca_eigenentropy [a, 0, 0] = Some h"
    using pca_eigenentropy_Some [of a 0 0] assms by auto
  have "pca_output (ex_solver [[a, 0, 0], [0, 0, 0], [0, 0, 0]]) =
           Some \<lparr>val = [a, 0, 0], v0 = [- 1, 0, 0], v1 = [0, - 1, 0], v2 = [0, 0, 1],
                 eigenentropy = h\<rparr>"
    unfolding pca_output_unfold ex_sorted_indices [OF assms]
    using assms h by (simp add: ex_solver_def z_plus_def max_def)
  with h show ?thesis by blast
qed

lemma pca_output_fields:
  assumes "pca_output es = Some p"
  shows "val p = [max (fst es (sorted_indices (fst es) ! 0)) 0,
                  max (fst es (sorted_indices (fst es) ! 1)) 0,
                  max (fst es (sorted_indices (fst es) ! 2)) 0]"
    and "v0 p = z_plus [snd es (sorted_indices (fst es) ! 0) 0,
                        snd es (sorted_indices (fst es) ! 0) 1,
                        snd es (sorted_indices (fst es) ! 0) 2]"
    and "v1 p = z_plus [snd es (sorted_indices (fst es) ! 1) 0,
                        snd es (sorted_indices (fst es) ! 1) 1,
                        snd es (sorted_indices (fst es) ! 1) 2]"
    and "v2 p = z_plus [snd es (sorted_indices (fst es) ! 2) 0,
                        snd es (sorted_indices (fst es) ! 2) 1,
                        snd es (sorted_indices (fst es) ! 2) 2]"
    and "pca_eigenentropy (val p) = Some (eigenentropy p)"
  using assms by (auto simp: pca_output_unfold bind_eq_Some_conv)

lemma ex_entropy2:
  "pca_eigenentropy [1024, 0, 0] = Some (- (1024000 / 1024001 * ln (1024000 / 1024001 + 1 / 1000)))"
  by (simp add: pca_eigenentropy_def Let_def fdiv_def flog_def)

section \<open>Properties of \<^verbatim>\<open>neighborhood_pca\<close>\<close>

text \<open>
  C4. Whenever \<^verbatim>\<open>neighborhood_pca\<close> returns, the three eigenvalues of its result are in
  descending order and none is negative: \<open>l0 \<ge> l1 \<ge> l2 \<ge> 0\<close>. The eigenvalues of the solver
  are arbitrary real numbers; the order comes from the sort of lines 65--68 and the sign
  from the clamp of lines 69--72.
\<close>

theorem neighborhood_pca_eigenvalues_descending:
  assumes "neighborhood_pca solver xyz nn nn_ptr i_point k_nn = Some p"
  shows "\<exists>l0 l1 l2. val p = [l0, l1, l2] \<and> l0 \<ge> l1 \<and> l1 \<ge> l2 \<and> l2 \<ge> 0"
proof -
  from assms obtain cov where "pca_output (solver cov) = Some p"
    by (auto simp: neighborhood_pca_def bind_eq_Some_conv)
  then show ?thesis by (rule pca_output_val)
qed

theorem neighborhood_pca_eigenvalues_descending_witness:
  "\<exists>p. neighborhood_pca ex_solver ex_xyz ex_nn ex_nn_ptr 0 3 = Some p \<and>
       (\<exists>l0 l1 l2. val p = [l0, l1, l2] \<and> l0 \<ge> l1 \<and> l1 \<ge> l2 \<and> l2 \<ge> 0)"
proof -
  obtain p where p: "neighborhood_pca ex_solver ex_xyz ex_nn ex_nn_ptr 0 3 = Some p"
    using neighborhood_pca_total [OF ex_cov3] by blast
  from neighborhood_pca_eigenvalues_descending [OF p] p show ?thesis by blast
qed

text \<open>
  C5. In the result of \<^verbatim>\<open>neighborhood_pca\<close>, each of the three eigenvectors is the column
  of the solver's eigenvector matrix that the sort selected, negated as a whole when its
  third coordinate is negative and unchanged otherwise; so the third coordinate of each
  is not negative.
\<close>

theorem neighborhood_pca_eigenvectors_z_plus:
  assumes "neighborhood_cov xyz nn nn_ptr i_point k_nn = Some cov"
    and "neighborhood_pca solver xyz nn nn_ptr i_point k_nn = Some p"
  shows "let E = snd (solver cov); idx = sorted_indices (fst (solver cov)) in
         v0 p = (if E (idx ! 0) 2 < 0 then [- E (idx ! 0) 0, - E (idx ! 0) 1, - E (idx ! 0) 2]
                 else [E (idx ! 0) 0, E (idx ! 0) 1, E (idx ! 0) 2]) \<and>
         v1 p = (if E (idx ! 1) 2 < 0 then [- E (idx ! 1) 0, - E (idx ! 1) 1, - E (idx ! 1) 2]
                 else [E (idx ! 1) 0, E (idx ! 1) 1, E (idx ! 1) 2]) \<and>
         v2 p = (if E (idx ! 2) 2 < 0 then [- E (idx ! 2) 0, - E (idx ! 2) 1, - E (idx ! 2) 2]
                 else [E (idx ! 2) 0, E (idx ! 2) 1, E (idx ! 2) 2]) \<and>
         0 \<le> v0 p ! 2 \<and> 0 \<le> v1 p ! 2 \<and> 0 \<le> v2 p ! 2"
proof -
  from assms have out: "pca_output (solver cov) = Some p"
    by (simp add: neighborhood_pca_def)
  show ?thesis
    unfolding Let_def pca_output_fields(2-4) [OF out]
    by (simp add: z_plus_def)
qed

theorem neighborhood_pca_eigenvectors_z_plus_witness:
  "neighborhood_cov ex_xyz ex_nn ex_nn_ptr 0 3 = Some [[2048 / 3, 0, 0], [0, 0, 0], [0, 0, 0]] \<and>
   (\<exists>p. neighborhood_pca ex_solver ex_xyz ex_nn ex_nn_ptr 0 3 = Some p \<and>
        v0 p = [- 1, 0, 0] \<and> v1 p = [0, - 1, 0] \<and> v2 p = [0, 0, 1] \<and>
        0 \<le> v0 p ! 2 \<and> 0 \<le> v1 p ! 2 \<and> 0 \<le> v2 p ! 2)"
proof -
  obtain p where p: "neighborhood_pca ex_solver ex_xyz ex_nn ex_nn_ptr 0 3 = Some p"
    using neighborhood_pca_total [OF ex_cov3] by blast
  have idx: "sorted_indices (fst (ex_solver [[2048 / 3, 0, 0], [0, 0, 0], [0, 0, 0]])) = [0, 1, 2]"
    by (rule ex_sorted_indices) simp
  from neighborhood_pca_eigenvectors_z_plus [OF ex_cov3 p]
  have "v0 p = [- 1, 0, 0] \<and> v1 p = [0, - 1, 0] \<and> v2 p = [0, 0, 1] \<and>
        0 \<le> v0 p ! 2 \<and> 0 \<le> v1 p ! 2 \<and> 0 \<le> v2 p ! 2"
    unfolding Let_def idx by (simp add: ex_solver_def)
  with p ex_cov3 show ?thesis by blast
qed

text \<open>
  C2, as stated, fails: for the first two neighbours of the first point of the concrete
  input the clamped eigenvalues are \<open>(1024, 0, 0)\<close>, not all zero, and the eigenentropy is
  negative, since \<open>e0 + 0.001 > 1\<close>.
\<close>

theorem eigenentropy_nonnegative_counterexample:
  "neighborhood_pca ex_solver ex_xyz ex_nn ex_nn_ptr 0 2 =
     Some \<lparr>val = [1024, 0, 0], v0 = [- 1, 0, 0], v1 = [0, - 1, 0], v2 = [0, 0, 1],
           eigenentropy = - (1024000 / 1024001 * ln (1024000 / 1024001 + 1 / 1000))\<rparr> \<and>
   - (1024000 / 1024001 * ln (1024000 / 1024001 + 1 / 1000)) < (0 :: real)"
proof -
  from ex_pca_output [of 1024] ex_entropy2
  have "pca_output (ex_solver [[1024, 0, 0], [0, 0, 0], [0, 0, 0]]) =
     Some \<lparr>val = [1024, 0, 0], v0 = [- 1, 0, 0], v1 = [0, - 1, 0], v2 = [0, 0, 1],
           eigenentropy = - (1024000 / 1024001 * ln (1024000 / 1024001 + 1 / 1000))\<rparr>"
    by auto
  then have "neighborhood_pca ex_solver ex_xyz ex_nn ex_nn_ptr 0 2 =
     Some \<lparr>val = [1024, 0, 0], v0 = [- 1, 0, 0], v1 = [0, - 1, 0], v2 = [0, 0, 1],
           eigenentropy = - (1024000 / 1024001 * ln (1024000 / 1024001 + 1 / 1000))\<rparr>"
    by (simp add: neighborhood_pca_def ex_cov2)
  moreover have "(0 :: real) < ln (1024000 / 1024001 + 1 / 1000)"
    by (rule ln_gt_zero) simp
  then have "- (1024000 / 1024001 * ln (1024000 / 1024001 + 1 / 1000)) < (0 :: real)"
    by simp
  ultimately show ?thesis by blast
qed


text \<open>
  C2, amended. Whenever the covariance matrix is computed (by \<open>neighborhood_cov_total\<close>:
  when the reads are in range and \<open>k_nn\<close> is not zero), \<^verbatim>\<open>neighborhood_pca\<close> returns, so the
  eigenentropy is a finite number, whether or not the eigenvalues are all zero; it is
  greater than \<open>- 0.001\<close>; and it is not negative when no \<open>e\<^sub>i + 0.001\<close> exceeds one.
\<close>

theorem neighborhood_pca_eigenentropy_bound:
  assumes "neighborhood_cov xyz nn nn_ptr i_point k_nn = Some cov"
  shows "\<exists>p. neighborhood_pca solver xyz nn nn_ptr i_point k_nn = Some p \<and>
             - 0.001 < eigenentropy p \<and>
             ((\<forall>i<3. val p ! i / (val p ! 0 + val p ! 1 + val p ! 2 + 0.001) + 0.001 \<le> 1)
                \<longrightarrow> 0 \<le> eigenentropy p)"
proof -
  obtain p where p: "neighborhood_pca solver xyz nn nn_ptr i_point k_nn = Some p"
    using neighborhood_pca_total [OF assms] by blast
  with assms have out: "pca_output (solver cov) = Some p"
    by (simp add: neighborhood_pca_def)
  from pca_output_val [OF out] obtain a b c where
    v: "val p = [a, b, c]" and pos: "0 \<le> a" "0 \<le> b" "0 \<le> c"
    by auto
  from pca_eigenentropy_Some [OF pos] pca_output_fields(5) [OF out] v
  have "- 0.001 < eigenentropy p"
    and "a / (a + b + c + 0.001) + 0.001 \<le> 1 \<and> b / (a + b + c + 0.001) + 0.001 \<le> 1
           \<and> c / (a + b + c + 0.001) + 0.001 \<le> 1 \<longrightarrow> 0 \<le> eigenentropy p"
    by auto
  moreover have "(\<forall>i<3. val p ! i / (val p ! 0 + val p ! 1 + val p ! 2 + 0.001) + 0.001 \<le> 1)
    \<longleftrightarrow> a / (a + b + c + 0.001) + 0.001 \<le> 1 \<and> b / (a + b + c + 0.001) + 0.001 \<le> 1
           \<and> c / (a + b + c + 0.001) + 0.001 \<le> 1"
    by (simp add: v numeral_3_eq_3 less_Suc_eq all_conj_distrib numeral_2_eq_2)
  ultimately show ?thesis using p by blast
qed

theorem neighborhood_pca_eigenentropy_bound_witness:
  "neighborhood_cov ex_xyz ex_nn ex_nn_ptr 0 1 = Some [[0, 0, 0], [0, 0, 0], [0, 0, 0]] \<and>
   (\<exists>p. neighborhood_pca ex_solver ex_xyz ex_nn ex_nn_ptr 0 1 = Some p \<and> val p = [0, 0, 0] \<and>
        - 0.001 < eigenentropy p \<and> 0 \<le> eigenentropy p)"
proof -
  from neighborhood_pca_eigenentropy_bound [OF ex_cov1, of ex_solver] obtain p where
    p: "neighborhood_pca ex_solver ex_xyz ex_nn ex_nn_ptr 0 1 = Some p" and
    low: "- 0.001 < eigenentropy p" and
    imp: "(\<forall>i<3. val p ! i / (val p ! 0 + val p ! 1 + val p ! 2 + 0.001) + 0.001 \<le> 1)
                \<longrightarrow> 0 \<le> eigenentropy p"
    by blast
  from ex_pca_output [of 0] p ex_cov1 have v: "val p = [0, 0, 0]"
    by (auto simp: neighborhood_pca_def)
  have "\<forall>i<3. val p ! i / (val p ! 0 + val p ! 1 + val p ! 2 + 0.001) + 0.001 \<le> 1"
    by (simp add: v numeral_3_eq_3 less_Suc_eq all_conj_distrib numeral_2_eq_2)
  with imp have "0 \<le> eigenentropy p" by blast
  with p v low ex_cov1 show ?thesis by blast
qed

section \<open>The search loop\<close>

lemma search_loop_exit:
  "\<not> k < k_nn + 1 \<Longrightarrow>
   search_loop solver xyz nn nn_ptr i_point k_nn k_step k0 k pca evaluated = Some (pca, evaluated)"
  by (simp add: search_loop.simps [of _ _ _ _ _ _ _ _ k])

lemma search_loop_first:
  assumes "k0 < k_nn + 1"
  shows "search_loop solver xyz nn nn_ptr i_point k_nn k_step k0 k0 pca evaluated =
         do {
           pca_k \<leftarrow> neighborhood_pca solver xyz nn nn_ptr i_point k0;
           search_loop solver xyz nn nn_ptr i_point k_nn k_step k0 (k0 + 1)
             (Some (pca_k, k0)) (evaluated @ [k0])
         }"
  using assms by (simp add: search_loop.simps [of _ _ _ _ _ _ _ _ k0])

lemma search_loop_later:
  assumes "k < k_nn + 1" and "k0 < k" and "scast k_step \<noteq> (0 :: size_t)"
  shows "search_loop solver xyz nn nn_ptr i_point k_nn k_step k0 k (Some (p0, j0)) evaluated =
         (if candidate k0 (scast k_step) k_nn k then
            do {
              pca_k \<leftarrow> neighborhood_pca solver xyz nn nn_ptr i_point k;
              search_loop solver xyz nn nn_ptr i_point k_nn k_step k0 (k + 1)
                (if eigenentropy pca_k < eigenentropy p0 then Some (pca_k, k) else Some (p0, j0))
                (evaluated @ [k])
            }
          else search_loop solver xyz nn nn_ptr i_point k_nn k_step k0 (k + 1) (Some (p0, j0))
                 evaluated)"
proof -
  from assms(2) have "\<not> k \<le> k0" "k \<noteq> k0" "k0 \<noteq> k" by auto
  with assms(1,2,3) show ?thesis
    by (subst search_loop.simps) (auto simp: candidate_def umod_def)
qed


lemma search_loop_trace:
  "search_loop solver xyz nn nn_ptr i_point k_nn k_step k0 k pca evaluated = Some (best, ev') \<Longrightarrow>
   set ev' = set evaluated \<union> {j. k \<le> j \<and> j < k_nn + 1 \<and> candidate k0 (scast k_step) k_nn j}"
proof (induction solver xyz nn nn_ptr i_point k_nn k_step k0 k pca evaluated rule: search_loop.induct)
  case (1 solver xyz nn nn_ptr i_point k_nn k_step k0 k pca evaluated)
  note [simp] = search_loop.simps
  show ?case
  proof (cases "k < k_nn + 1")
    case False
    then have "{j. k \<le> j \<and> j < k_nn + 1 \<and> candidate k0 (scast k_step) k_nn j} = {}"
      by auto
    moreover from False "1.prems" have "ev' = evaluated" by (simp add: search_loop_exit)
    ultimately show ?thesis by (simp only: Un_empty_right)
  next
    case True
    have split: "{j. k \<le> j \<and> j < k_nn + 1 \<and> candidate k0 (scast k_step) k_nn j}
       = (if candidate k0 (scast k_step) k_nn k then {k} else {})
         \<union> {j. k + 1 \<le> j \<and> j < k_nn + 1 \<and> candidate k0 (scast k_step) k_nn j}"
      using True word_le_succ [OF True] by auto
    from "1.prems" True obtain skip where
      skip: "(if k > k0 then do { r \<leftarrow> umod k (scast k_step); Some (r \<noteq> 0 \<and> k \<noteq> k_nn) }
              else Some False) = Some skip"
      by (auto simp: bind_eq_Some_conv)
    then have skip_eq: "skip \<longleftrightarrow> \<not> candidate k0 (scast k_step) k_nn k"
      by (auto simp: candidate_def umod_def bind_eq_Some_conv split: if_splits)
    show ?thesis
    proof (cases skip)
      case True
      with "1.prems" \<open>k < k_nn + 1\<close> skip
      have "search_loop solver xyz nn nn_ptr i_point k_nn k_step k0 (k + 1) pca evaluated = Some (best, ev')"
        by (simp del: search_loop.simps add: search_loop.simps [of _ _ _ _ _ _ _ _ k])
      from "1.IH"(1) [OF \<open>k < k_nn + 1\<close> skip True this] True skip_eq split
      show ?thesis by simp
    next
      case False
      with "1.prems" \<open>k < k_nn + 1\<close> skip obtain pca_k better where
        pk: "neighborhood_pca solver xyz nn nn_ptr i_point k = Some pca_k" and
        b: "(if k = k0 then Some True
             else case pca of None \<Rightarrow> None
                  | Some (p, k_optimal) \<Rightarrow> Some (eigenentropy pca_k < eigenentropy p)) = Some better" and
        rec: "search_loop solver xyz nn nn_ptr i_point k_nn k_step k0 (k + 1)
                (if better then Some (pca_k, k) else pca) (evaluated @ [k]) = Some (best, ev')"
        by (auto simp del: search_loop.simps simp add: search_loop.simps [of _ _ _ _ _ _ _ _ k] bind_eq_Some_conv)
      from "1.IH"(2) [OF \<open>k < k_nn + 1\<close> skip False pk b rec] False skip_eq split
      show ?thesis by auto
    qed
  qed
qed


lemma search_loop_best:
  assumes "search_loop solver xyz nn nn_ptr i_point k_nn k_step k0 k (Some (p0, j0)) evaluated
             = Some (best, ev')"
    and "k0 < k" and "scast k_step \<noteq> (0 :: size_t)"
  shows "\<exists>p k_opt. best = Some (p, k_opt) \<and> eigenentropy p \<le> eigenentropy p0 \<and>
           (\<forall>j q. k \<le> j \<longrightarrow> j < k_nn + 1 \<longrightarrow> candidate k0 (scast k_step) k_nn j \<longrightarrow>
                  neighborhood_pca solver xyz nn nn_ptr i_point j = Some q \<longrightarrow>
                  eigenentropy p \<le> eigenentropy q) \<and>
           ((p, k_opt) = (p0, j0) \<or>
            (k \<le> k_opt \<and> k_opt < k_nn + 1 \<and> candidate k0 (scast k_step) k_nn k_opt \<and>
             neighborhood_pca solver xyz nn nn_ptr i_point k_opt = Some p \<and>
             eigenentropy p < eigenentropy p0 \<and>
             (\<forall>j q. k \<le> j \<longrightarrow> j < k_opt \<longrightarrow> candidate k0 (scast k_step) k_nn j \<longrightarrow>
                    neighborhood_pca solver xyz nn nn_ptr i_point j = Some q \<longrightarrow>
                    eigenentropy p < eigenentropy q)))"
  using assms
proof (induction "unat (k_nn + 1) - unat k" arbitrary: k p0 j0 evaluated rule: less_induct)
  case less
  show ?case
  proof (cases "k < k_nn + 1")
    case False
    with less.prems(1) have "best = Some (p0, j0)"
      by (simp add: search_loop_exit)
    moreover from False have "\<And>j. k \<le> j \<Longrightarrow> j < k_nn + 1 \<Longrightarrow> False"
      by auto
    ultimately show ?thesis by blast
  next
    case True
    note later = search_loop_later [OF True less.prems(2,3), of solver xyz nn nn_ptr i_point p0 j0 evaluated]
    from True have "unat k < unat (k_nn + 1)" by (simp add: word_less_nat_alt)
    then have m: "unat (k_nn + 1) - unat (k + 1) < unat (k_nn + 1) - unat k"
      using unat_succ [OF True] by linarith
    have k1: "k0 < k + 1"
      using word_lt_succ [OF True, of k0] less.prems(2) by simp
    have le: "\<And>j. k \<le> j \<longleftrightarrow> j = k \<or> k + 1 \<le> j"
      using word_le_succ [OF True] by blast
    have kk: "k < k + 1"
      using word_lt_succ [OF True, of k] by simp
    show ?thesis
    proof (cases "candidate k0 (scast k_step) k_nn k")
      case False
      with later less.prems(1)
      have rec: "search_loop solver xyz nn nn_ptr i_point k_nn k_step k0 (k + 1) (Some (p0, j0)) evaluated
                  = Some (best, ev')"
        by simp
      from less.hyps [OF m rec k1 less.prems(3)] obtain p k_opt where
        b: "best = Some (p, k_opt)" and e0: "eigenentropy p \<le> eigenentropy p0" and
        mn: "\<And>j q. k + 1 \<le> j \<Longrightarrow> j < k_nn + 1 \<Longrightarrow> candidate k0 (scast k_step) k_nn j \<Longrightarrow>
                  neighborhood_pca solver xyz nn nn_ptr i_point j = Some q \<Longrightarrow>
                  eigenentropy p \<le> eigenentropy q" and
        d: "(p, k_opt) = (p0, j0) \<or>
            (k + 1 \<le> k_opt \<and> k_opt < k_nn + 1 \<and> candidate k0 (scast k_step) k_nn k_opt \<and>
             neighborhood_pca solver xyz nn nn_ptr i_point k_opt = Some p \<and>
             eigenentropy p < eigenentropy p0 \<and>
             (\<forall>j q. k + 1 \<le> j \<longrightarrow> j < k_opt \<longrightarrow> candidate k0 (scast k_step) k_nn j \<longrightarrow>
                    neighborhood_pca solver xyz nn nn_ptr i_point j = Some q \<longrightarrow>
                    eigenentropy p < eigenentropy q))"
        by blast
      have mn': "\<forall>j q. k \<le> j \<longrightarrow> j < k_nn + 1 \<longrightarrow> candidate k0 (scast k_step) k_nn j \<longrightarrow>
                  neighborhood_pca solver xyz nn nn_ptr i_point j = Some q \<longrightarrow>
                  eigenentropy p \<le> eigenentropy q"
        using mn False by (auto simp: le)
      have d': "(p, k_opt) = (p0, j0) \<or>
            (k \<le> k_opt \<and> k_opt < k_nn + 1 \<and> candidate k0 (scast k_step) k_nn k_opt \<and>
             neighborhood_pca solver xyz nn nn_ptr i_point k_opt = Some p \<and>
             eigenentropy p < eigenentropy p0 \<and>
             (\<forall>j q. k \<le> j \<longrightarrow> j < k_opt \<longrightarrow> candidate k0 (scast k_step) k_nn j \<longrightarrow>
                    neighborhood_pca solver xyz nn nn_ptr i_point j = Some q \<longrightarrow>
                    eigenentropy p < eigenentropy q))"
        using d False by (auto simp: le)
      from b e0 mn' d' show ?thesis by blast
    next
      case cand: True
      with later less.prems(1)
      have "do {
              pca_k \<leftarrow> neighborhood_pca solver xyz nn nn_ptr i_point k;
              search_loop solver xyz nn nn_ptr i_point k_nn k_step k0 (k + 1)
                (if eigenentropy pca_k < eigenentropy p0 then Some (pca_k, k) else Some (p0, j0))
                (evaluated @ [k])
            } = Some (best, ev')"
        by simp
      then obtain pca_k where
        pk: "neighborhood_pca solver xyz nn nn_ptr i_point k = Some pca_k" and
        rec: "search_loop solver xyz nn nn_ptr i_point k_nn k_step k0 (k + 1)
                (if eigenentropy pca_k < eigenentropy p0 then Some (pca_k, k) else Some (p0, j0))
                (evaluated @ [k]) = Some (best, ev')"
        unfolding bind_eq_Some_conv by blast
      show ?thesis
      proof (cases "eigenentropy pca_k < eigenentropy p0")
        case better: True
        with rec have rec': "search_loop solver xyz nn nn_ptr i_point k_nn k_step k0 (k + 1)
                (Some (pca_k, k)) (evaluated @ [k]) = Some (best, ev')"
          by simp
        from less.hyps [OF m rec' k1 less.prems(3)] obtain p k_opt where
          b: "best = Some (p, k_opt)" and e0: "eigenentropy p \<le> eigenentropy pca_k" and
          mn: "\<And>j q. k + 1 \<le> j \<Longrightarrow> j < k_nn + 1 \<Longrightarrow> candidate k0 (scast k_step) k_nn j \<Longrightarrow>
                  neighborhood_pca solver xyz nn nn_ptr i_point j = Some q \<Longrightarrow>
                  eigenentropy p \<le> eigenentropy q" and
          d: "(p, k_opt) = (pca_k, k) \<or>
            (k + 1 \<le> k_opt \<and> k_opt < k_nn + 1 \<and> candidate k0 (scast k_step) k_nn k_opt \<and>
             neighborhood_pca solver xyz nn nn_ptr i_point k_opt = Some p \<and>
             eigenentropy p < eigenentropy pca_k \<and>
             (\<forall>j q. k + 1 \<le> j \<longrightarrow> j < k_opt \<longrightarrow> candidate k0 (scast k_step) k_nn j \<longrightarrow>
                    neighborhood_pca solver xyz nn nn_ptr i_point j = Some q \<longrightarrow>
                    eigenentropy p < eigenentropy q))"
          by blast
        have e0': "eigenentropy p \<le> eigenentropy p0" "eigenentropy p < eigenentropy p0"
          using e0 better by linarith+
        have mn': "\<forall>j q. k \<le> j \<longrightarrow> j < k_nn + 1 \<longrightarrow> candidate k0 (scast k_step) k_nn j \<longrightarrow>
                  neighborhood_pca solver xyz nn nn_ptr i_point j = Some q \<longrightarrow>
                  eigenentropy p \<le> eigenentropy q"
          using mn e0 pk by (auto simp: le)
        have d': "k \<le> k_opt \<and> k_opt < k_nn + 1 \<and> candidate k0 (scast k_step) k_nn k_opt \<and>
             neighborhood_pca solver xyz nn nn_ptr i_point k_opt = Some p \<and>
             (\<forall>j q. k \<le> j \<longrightarrow> j < k_opt \<longrightarrow> candidate k0 (scast k_step) k_nn j \<longrightarrow>
                    neighborhood_pca solver xyz nn nn_ptr i_point j = Some q \<longrightarrow>
                    eigenentropy p < eigenentropy q)"
        proof (cases "(p, k_opt) = (pca_k, k)")
          case True
          with True \<open>k < k_nn + 1\<close> cand pk show ?thesis by auto
        next
          case False
          with d have d2: "k + 1 \<le> k_opt" "k_opt < k_nn + 1" "candidate k0 (scast k_step) k_nn k_opt"
             "neighborhood_pca solver xyz nn nn_ptr i_point k_opt = Some p"
             "eigenentropy p < eigenentropy pca_k"
             "\<And>j q. k + 1 \<le> j \<Longrightarrow> j < k_opt \<Longrightarrow> candidate k0 (scast k_step) k_nn j \<Longrightarrow>
                    neighborhood_pca solver xyz nn nn_ptr i_point j = Some q \<Longrightarrow>
                    eigenentropy p < eigenentropy q"
            by blast+
          have "k \<le> k_opt" using d2(1) by (simp add: le)
          moreover have "\<forall>j q. k \<le> j \<longrightarrow> j < k_opt \<longrightarrow> candidate k0 (scast k_step) k_nn j \<longrightarrow>
                    neighborhood_pca solver xyz nn nn_ptr i_point j = Some q \<longrightarrow>
                    eigenentropy p < eigenentropy q"
            using d2(5,6) pk by (auto simp: le)
          ultimately show ?thesis using d2 by blast
        qed
        from b e0' mn' d' show ?thesis by blast
      next
        case worse: False
        with rec have rec': "search_loop solver xyz nn nn_ptr i_point k_nn k_step k0 (k + 1)
                (Some (p0, j0)) (evaluated @ [k]) = Some (best, ev')"
          by simp
        from less.hyps [OF m rec' k1 less.prems(3)] obtain p k_opt where
          b: "best = Some (p, k_opt)" and e0: "eigenentropy p \<le> eigenentropy p0" and
          mn: "\<And>j q. k + 1 \<le> j \<Longrightarrow> j < k_nn + 1 \<Longrightarrow> candidate k0 (scast k_step) k_nn j \<Longrightarrow>
                  neighborhood_pca solver xyz nn nn_ptr i_point j = Some q \<Longrightarrow>
                  eigenentropy p \<le> eigenentropy q" and
          d: "(p, k_opt) = (p0, j0) \<or>
            (k + 1 \<le> k_opt \<and> k_opt < k_nn + 1 \<and> candidate k0 (scast k_step) k_nn k_opt \<and>
             neighborhood_pca solver xyz nn nn_ptr i_point k_opt = Some p \<and>
             eigenentropy p < eigenentropy p0 \<and>
             (\<forall>j q. k + 1 \<le> j \<longrightarrow> j < k_opt \<longrightarrow> candidate k0 (scast k_step) k_nn j \<longrightarrow>
                    neighborhood_pca solver xyz nn nn_ptr i_point j = Some q \<longrightarrow>
                    eigenentropy p < eigenentropy q))"
          by blast
        have ek: "eigenentropy p \<le> eigenentropy pca_k"
          using e0 worse by linarith
        have mn': "\<forall>j q. k \<le> j \<longrightarrow> j < k_nn + 1 \<longrightarrow> candidate k0 (scast k_step) k_nn j \<longrightarrow>
                  neighborhood_pca solver xyz nn nn_ptr i_point j = Some q \<longrightarrow>
                  eigenentropy p \<le> eigenentropy q"
          using mn ek pk by (auto simp: le)
        have d': "(p, k_opt) = (p0, j0) \<or>
            (k \<le> k_opt \<and> k_opt < k_nn + 1 \<and> candidate k0 (scast k_step) k_nn k_opt \<and>
             neighborhood_pca solver xyz nn nn_ptr i_point k_opt = Some p \<and>
             eigenentropy p < eigenentropy p0 \<and>
             (\<forall>j q. k \<le> j \<longrightarrow> j < k_opt \<longrightarrow> candidate k0 (scast k_step) k_nn j \<longrightarrow>
                    neighborhood_pca solver xyz nn nn_ptr i_point j = Some q \<longrightarrow>
                    eigenentropy p < eigenentropy q))"
        proof (cases "(p, k_opt) = (p0, j0)")
          case True
          then show ?thesis by blast
        next
          case False
          with d have d2: "k + 1 \<le> k_opt" "k_opt < k_nn + 1" "candidate k0 (scast k_step) k_nn k_opt"
             "neighborhood_pca solver xyz nn nn_ptr i_point k_opt = Some p"
             "eigenentropy p < eigenentropy p0"
             "\<And>j q. k + 1 \<le> j \<Longrightarrow> j < k_opt \<Longrightarrow> candidate k0 (scast k_step) k_nn j \<Longrightarrow>
                    neighborhood_pca solver xyz nn nn_ptr i_point j = Some q \<Longrightarrow>
                    eigenentropy p < eigenentropy q"
            by blast+
          have "k \<le> k_opt" using d2(1) by (simp add: le)
          moreover have "eigenentropy p < eigenentropy pca_k" using d2(5) worse by linarith
          then have "\<forall>j q. k \<le> j \<longrightarrow> j < k_opt \<longrightarrow> candidate k0 (scast k_step) k_nn j \<longrightarrow>
                    neighborhood_pca solver xyz nn nn_ptr i_point j = Some q \<longrightarrow>
                    eigenentropy p < eigenentropy q"
            using d2(6) pk by (auto simp: le)
          ultimately show ?thesis using d2 by blast
        qed
        from b e0 mn' d' show ?thesis by blast
      qed
    qed
  qed
qed

section \<open>The stores of one point\<close>

lemma store_features_eq:
  assumes "unat i_point < 2 ^ 31"
  shows "store_features f i_point fs =
     (if 11 * unat i_point + 10 < length f then
        Some (f[11 * unat i_point + 0 := fs ! 0, 11 * unat i_point + 1 := fs ! 1,
                11 * unat i_point + 2 := fs ! 2, 11 * unat i_point + 3 := fs ! 3,
                11 * unat i_point + 4 := fs ! 4, 11 * unat i_point + 5 := fs ! 5,
                11 * unat i_point + 6 := fs ! 6, 11 * unat i_point + 7 := fs ! 7,
                11 * unat i_point + 8 := fs ! 8, 11 * unat i_point + 9 := fs ! 9,
                11 * unat i_point + 10 := fs ! 10])
      else None)"
  unfolding store_features_def wr_def slot_indices [OF assms]
  by (auto simp: bind_eq_None_conv)

lemma store_features_SomeD:
  assumes "store_features f i_point fs = Some f'" and "unat i_point < 2 ^ 31"
  shows "11 * unat i_point + 10 < length f" and "length f' = length f"
    and "\<And>n. n < 11 * unat i_point \<or> 11 * unat i_point + 10 < n \<Longrightarrow> f' ! n = f ! n"
    and "f' ! (11 * unat i_point + 0) = fs ! 0" "f' ! (11 * unat i_point + 1) = fs ! 1"
    "f' ! (11 * unat i_point + 2) = fs ! 2" "f' ! (11 * unat i_point + 3) = fs ! 3"
    "f' ! (11 * unat i_point + 4) = fs ! 4" "f' ! (11 * unat i_point + 5) = fs ! 5"
    "f' ! (11 * unat i_point + 6) = fs ! 6" "f' ! (11 * unat i_point + 7) = fs ! 7"
    "f' ! (11 * unat i_point + 8) = fs ! 8" "f' ! (11 * unat i_point + 9) = fs ! 9"
    "f' ! (11 * unat i_point + 10) = fs ! 10"
  using assms(1) unfolding store_features_eq [OF assms(2)]
  by (auto split: if_splits)

lemma point_step_degenerate:
  assumes "rd (nn_ptr_buf m) (i_point + 1) = Some p1" and "rd (nn_ptr_buf m) i_point = Some p0"
    and "sint k_min < 0 \<or> int (unat (p1 - p0)) < sint k_min \<or> p1 - p0 = 0"
  shows "point_step solver k_min k_step k_min_search i_point m =
           do {
             f \<leftarrow> store_features (features_buf m) i_point [0, 0, 0, 0, 0, 0, 0, 0, 0, 0, 0];
             Some (m\<lparr>features_buf := f\<rparr>, [])
           }"
  using assms by (auto simp: point_step_def Let_def guard_iff ucast_eq_zero)

lemma point_step_nondegenerate:
  assumes "rd (nn_ptr_buf m) (i_point + 1) = Some p1" and "rd (nn_ptr_buf m) i_point = Some p0"
    and "0 \<le> sint k_min" and "sint k_min \<le> int (unat (p1 - p0))" and "p1 - p0 \<noteq> 0"
  shows "point_step solver k_min k_step k_min_search i_point m =
           do {
             (best, evaluated) \<leftarrow>
               optimal_pca solver (xyz_buf m) (nn_buf m) (nn_ptr_buf m) i_point
                 (ucast (p1 - p0)) k_min k_step k_min_search;
             (pca, k_optimal) \<leftarrow> best;
             fs \<leftarrow> point_features pca;
             f \<leftarrow> store_features (features_buf m) i_point fs;
             Some (m\<lparr>features_buf := f\<rparr>, evaluated)
           }"
  using assms by (auto simp: point_step_def Let_def guard_iff ucast_eq_zero)

lemma point_step_stores:
  assumes "point_step solver k_min k_step k_min_search i_point m = Some (m', evaluated)"
  shows "\<exists>fs f. store_features (features_buf m) i_point fs = Some f \<and> m' = m\<lparr>features_buf := f\<rparr>"
  using assms
  by (auto simp: point_step_def Let_def bind_eq_Some_conv split: if_splits prod.splits)

lemma ex_neighborhood_pca3:
  "\<exists>h. neighborhood_pca ex_solver ex_xyz ex_nn ex_nn_ptr 0 3 =
         Some \<lparr>val = [2048 / 3, 0, 0], v0 = [- 1, 0, 0], v1 = [0, - 1, 0], v2 = [0, 0, 1],
               eigenentropy = h\<rparr>"
  using ex_pca_output [of "2048 / 3"] by (auto simp: neighborhood_pca_def ex_cov3)

lemma ex_point_features:
  "\<exists>fs. point_features \<lparr>val = [2048 / 3, 0, 0], v0 = [- 1, 0, 0], v1 = [0, - 1, 0],
                          v2 = [0, 0, 1], eigenentropy = h\<rparr> = Some fs"
proof -
  have "0 \<le> sqrt (2048 / 3)" by simp
  then have "sqrt (2048 / 3) + 1 / 1000 \<noteq> 0" by linarith
  then have a: "(sqrt (2048 / 3) + 1 / 1000 = 0) = False" by (rule eq_False [THEN iffD2])
  show ?thesis
    by (simp add: point_features_def verticality_of_def rd_def fsqrt_def fdiv_def fpow_def a)
qed

lemma ex_point_step_no_search:
  "\<exists>m' h. point_step ex_solver 1 0 1 0 ex_buffers = Some (m', [3]) \<and>
          optimal_pca ex_solver (xyz_buf ex_buffers) (nn_buf ex_buffers) (nn_ptr_buf ex_buffers)
            0 (ucast (3 - 0 :: uint32_t)) 1 0 1 =
            Some (Some (\<lparr>val = [2048 / 3, 0, 0], v0 = [- 1, 0, 0], v1 = [0, - 1, 0],
                          v2 = [0, 0, 1], eigenentropy = h\<rparr>, 3), [3])"
proof -
  obtain h where pca: "neighborhood_pca ex_solver ex_xyz ex_nn ex_nn_ptr 0 3 =
         Some \<lparr>val = [2048 / 3, 0, 0], v0 = [- 1, 0, 0], v1 = [0, - 1, 0], v2 = [0, 0, 1],
               eigenentropy = h\<rparr>"
    using ex_neighborhood_pca3 by blast
  have opt: "optimal_pca ex_solver (xyz_buf ex_buffers) (nn_buf ex_buffers) (nn_ptr_buf ex_buffers)
            0 (ucast (3 - 0 :: uint32_t)) 1 0 1 =
            Some (Some (\<lparr>val = [2048 / 3, 0, 0], v0 = [- 1, 0, 0], v1 = [0, - 1, 0],
                          v2 = [0, 0, 1], eigenentropy = h\<rparr>, 3), [3])"
    by (simp add: optimal_pca_def ex_buffers_def pca)
  obtain fs where fs: "point_features \<lparr>val = [2048 / 3, 0, 0], v0 = [- 1, 0, 0], v1 = [0, - 1, 0],
                          v2 = [0, 0, 1], eigenentropy = h\<rparr> = Some fs"
    using ex_point_features by blast
  have r: "rd (nn_ptr_buf ex_buffers) (0 + 1) = Some 3" "rd (nn_ptr_buf ex_buffers) 0 = Some 0"
    by (simp_all add: ex_buffers_def ex_nn_ptr_def rd_def)
  obtain f where st: "store_features (features_buf ex_buffers) 0 fs = Some f"
    by (simp add: store_features_eq ex_buffers_def ex_features_def)
  have "point_step ex_solver 1 0 1 0 ex_buffers = Some (ex_buffers\<lparr>features_buf := f\<rparr>, [3])"
    using opt by (simp add: point_step_nondegenerate [OF r] fs st)
  with opt show ?thesis by blast
qed

text \<open>
  C9. The body of the loop for one \<^verbatim>\<open>i_point\<close> (below \<open>2\<^sup>3\<^sup>1\<close>, as \<^verbatim>\<open>n_points\<close> is an
  \<^verbatim>\<open>int\<close>) leaves \<^verbatim>\<open>xyz\<close>, \<^verbatim>\<open>nn\<close> and \<^verbatim>\<open>nn_ptr\<close> as they are, keeps the size of
  \<^verbatim>\<open>features\<close>, and changes no entry of \<^verbatim>\<open>features\<close> outside the eleven slots
  \<open>11 * i_point\<close>, ..., \<open>11 * i_point + 10\<close>.
\<close>

theorem point_step_frame:
  assumes "point_step solver k_min k_step k_min_search i_point m = Some (m', evaluated)"
    and "unat i_point < 2 ^ 31"
  shows "xyz_buf m' = xyz_buf m \<and> nn_buf m' = nn_buf m \<and> nn_ptr_buf m' = nn_ptr_buf m \<and>
         length (features_buf m') = length (features_buf m) \<and>
         (\<forall>n. n < 11 * unat i_point \<or> 11 * unat i_point + 10 < n \<longrightarrow>
              features_buf m' ! n = features_buf m ! n)"
proof -
  from point_step_stores [OF assms(1)] obtain fs f where
    st: "store_features (features_buf m) i_point fs = Some f" and m': "m' = m\<lparr>features_buf := f\<rparr>"
    by blast
  from store_features_SomeD(2,3) [OF st assms(2)] m' show ?thesis by simp
qed

theorem point_step_frame_witness:
  "\<exists>m'. point_step ex_solver 1 0 1 0 ex_buffers = Some (m', [3]) \<and> unat (0 :: size_t) < 2 ^ 31 \<and>
     xyz_buf m' = ex_xyz \<and> nn_buf m' = ex_nn \<and> nn_ptr_buf m' = ex_nn_ptr \<and>
     length (features_buf m') = 33 \<and> (\<forall>n. 10 < n \<and> n < 33 \<longrightarrow> features_buf m' ! n = 7)"
proof -
  from ex_point_step_no_search obtain m' where
    ps: "point_step ex_solver 1 0 1 0 ex_buffers = Some (m', [3])"
    by blast
  have i: "unat (0 :: size_t) < 2 ^ 31" by simp
  from point_step_frame [OF ps i]
  have "xyz_buf m' = ex_xyz \<and> nn_buf m' = ex_nn \<and> nn_ptr_buf m' = ex_nn_ptr \<and>
     length (features_buf m') = 33 \<and> (\<forall>n. 10 < n \<and> n < 33 \<longrightarrow> features_buf m' ! n = 7)"
    by (simp add: ex_buffers_def ex_features_def)
  with ps i show ?thesis by blast
qed

text \<open>
  C6. When the number of neighbours \<^verbatim>\<open>nn_ptr[i_point + 1] - nn_ptr[i_point]\<close> is below
  \<^verbatim>\<open>k_min\<close> or is zero, the body of the loop stores zero in each of the eleven slots of
  the point, leaves the rest of \<^verbatim>\<open>features\<close> as it is, and never calls
  \<^verbatim>\<open>neighborhood_pca\<close>: the list of evaluated sizes is empty.
\<close>

theorem point_step_degenerate_zero_fill:
  assumes "rd (nn_ptr_buf m) (i_point + 1) = Some p1" and "rd (nn_ptr_buf m) i_point = Some p0"
    and "int (unat (p1 - p0)) < sint k_min \<or> p1 - p0 = 0"
    and "unat i_point < 2 ^ 31" and "11 * unat i_point + 10 < length (features_buf m)"
  shows "\<exists>f'. point_step solver k_min k_step k_min_search i_point m
                = Some (m\<lparr>features_buf := f'\<rparr>, []) \<and>
              length f' = length (features_buf m) \<and>
              (\<forall>j<11. f' ! (11 * unat i_point + j) = 0) \<and>
              (\<forall>n. n < 11 * unat i_point \<or> 11 * unat i_point + 10 < n \<longrightarrow>
                   f' ! n = features_buf m ! n)"
proof -
  obtain f' where st: "store_features (features_buf m) i_point [0, 0, 0, 0, 0, 0, 0, 0, 0, 0, 0] = Some f'"
    using assms(5) by (simp add: store_features_eq [OF assms(4)])
  have "point_step solver k_min k_step k_min_search i_point m = Some (m\<lparr>features_buf := f'\<rparr>, [])"
    using assms(3) by (simp add: point_step_degenerate [OF assms(1,2)] st)
  moreover have "\<forall>j<11. f' ! (11 * unat i_point + j) = 0"
    unfolding all_less_11 using store_features_SomeD(4-14) [OF st assms(4)] by simp
  ultimately show ?thesis
    using store_features_SomeD(2,3) [OF st assms(4)] by blast
qed

theorem point_step_degenerate_zero_fill_witness:
  "rd (nn_ptr_buf ex_buffers) (0 + 1) = Some 3 \<and> rd (nn_ptr_buf ex_buffers) 0 = Some 0 \<and>
   int (unat (3 - 0 :: uint32_t)) < sint (4 :: cint) \<and> unat (0 :: size_t) < 2 ^ 31 \<and>
   11 * unat (0 :: size_t) + 10 < length (features_buf ex_buffers) \<and>
   (\<exists>f'. point_step ex_solver 4 1 1 0 ex_buffers = Some (ex_buffers\<lparr>features_buf := f'\<rparr>, []) \<and>
         length f' = 33 \<and> (\<forall>j<11. f' ! j = 0) \<and> (\<forall>n>10. f' ! n = ex_features ! n))"
proof -
  have h: "rd (nn_ptr_buf ex_buffers) (0 + 1) = Some 3" "rd (nn_ptr_buf ex_buffers) 0 = Some 0"
    "int (unat (3 - 0 :: uint32_t)) < sint (4 :: cint) \<or> (3 - 0 :: uint32_t) = 0"
    "unat (0 :: size_t) < 2 ^ 31" "11 * unat (0 :: size_t) + 10 < length (features_buf ex_buffers)"
    by (simp_all add: ex_buffers_def ex_nn_ptr_def ex_features_def rd_def)
  from point_step_degenerate_zero_fill [OF h, of ex_solver 1 1]
  have "\<exists>f'. point_step ex_solver 4 1 1 0 ex_buffers = Some (ex_buffers\<lparr>features_buf := f'\<rparr>, []) \<and>
         length f' = 33 \<and> (\<forall>j<11. f' ! j = 0) \<and> (\<forall>n>10. f' ! n = ex_features ! n)"
    by (auto simp: ex_buffers_def ex_features_def)
  moreover have "int (unat (3 - 0 :: uint32_t)) < sint (4 :: cint)" by simp
  ultimately show ?thesis using h(1,2,4,5) by blast
qed

section \<open>A negative \<^verbatim>\<open>k_min\<close>\<close>

lemma point_step_negative_k_min:
  assumes "sint k_min < 0" and "unat i_point < 2 ^ 31"
    and "unat i_point + 1 < length (nn_ptr_buf m)"
    and "11 * unat i_point + 10 < length (features_buf m)"
  shows "\<exists>f'. point_step solver k_min k_step k_min_search i_point m
                = Some (m\<lparr>features_buf := f'\<rparr>, []) \<and>
              length f' = length (features_buf m) \<and>
              (\<forall>j<11. f' ! (11 * unat i_point + j) = 0) \<and>
              (\<forall>n. n < 11 * unat i_point \<or> 11 * unat i_point + 10 < n \<longrightarrow>
                   f' ! n = features_buf m ! n)"
proof -
  have "i_point < 2 ^ 31"
    using assms(2) by (simp add: word_less_nat_alt)
  then have s: "unat (i_point + 1) = Suc (unat i_point)" by (rule unat_succ)
  obtain p1 p0 where r: "rd (nn_ptr_buf m) (i_point + 1) = Some p1" "rd (nn_ptr_buf m) i_point = Some p0"
    using assms(3) by (simp add: rd_def s)
  obtain f' where st: "store_features (features_buf m) i_point [0, 0, 0, 0, 0, 0, 0, 0, 0, 0, 0] = Some f'"
    using assms(4) by (simp add: store_features_eq [OF assms(2)])
  have "point_step solver k_min k_step k_min_search i_point m = Some (m\<lparr>features_buf := f'\<rparr>, [])"
    using assms(1) by (simp add: point_step_degenerate [OF r] st)
  moreover have "\<forall>j<11. f' ! (11 * unat i_point + j) = 0"
    unfolding all_less_11 using store_features_SomeD(4-14) [OF st assms(2)] by simp
  ultimately show ?thesis
    using store_features_SomeD(2,3) [OF st assms(2)] by blast
qed

lemma points_loop_negative_k_min:
  assumes "sint k_min < 0" and "0 \<le> sint n_points" and "unat i_point \<le> nat (sint n_points)"
    and "nat (sint n_points) < length (nn_ptr_buf m)"
    and "11 * nat (sint n_points) \<le> length (features_buf m)"
  shows "\<exists>f'. points_loop solver n_points k_min k_step k_min_search i_point m
                = Some (m\<lparr>features_buf := f'\<rparr>) \<and>
              length f' = length (features_buf m) \<and>
              (\<forall>n. 11 * unat i_point \<le> n \<and> n < 11 * nat (sint n_points) \<longrightarrow> f' ! n = 0) \<and>
              (\<forall>n. n < 11 * unat i_point \<or> 11 * nat (sint n_points) \<le> n \<longrightarrow>
                   f' ! n = features_buf m ! n)"
  using assms
proof (induction "nat (sint n_points) - unat i_point" arbitrary: i_point m rule: less_induct)
  case less
  define N where "N = nat (sint n_points)"
  have N: "unat (scast n_points :: size_t) = N"
    using unat_scast_nonneg [OF less.prems(2)] by (simp add: N_def)
  have N31: "N < 2 ^ 31" using sint_lt [of n_points] less.prems(2) by (simp add: N_def)
  show ?case
  proof (cases "i_point < scast n_points")
    case False
    then have "unat i_point = N"
      using less.prems(3) N by (simp add: word_less_nat_alt N_def)
    moreover from False
    have "points_loop solver n_points k_min k_step k_min_search i_point m = Some m"
      by (subst points_loop.simps) simp
    ultimately show ?thesis
      by (intro exI [of _ "features_buf m"]) (simp add: N_def)
  next
    case True
    then have lt: "unat i_point < N" using N by (simp add: word_less_nat_alt)
    have s: "unat (i_point + 1) = Suc (unat i_point)" using True by (rule unat_succ)
    have i31: "unat i_point < 2 ^ 31" using lt N31 by linarith
    from point_step_negative_k_min [OF less.prems(1) i31, of m solver k_step k_min_search]
      lt less.prems(4,5)
    obtain f1 where
      ps: "point_step solver k_min k_step k_min_search i_point m = Some (m\<lparr>features_buf := f1\<rparr>, [])"
      and len1: "length f1 = length (features_buf m)"
      and z1: "\<forall>j<11. f1 ! (11 * unat i_point + j) = 0"
      and fr1: "\<forall>n. n < 11 * unat i_point \<or> 11 * unat i_point + 10 < n \<longrightarrow> f1 ! n = features_buf m ! n"
      unfolding N_def [symmetric] by auto
    let ?m1 = "m\<lparr>features_buf := f1\<rparr>"
    have "\<exists>f'. points_loop solver n_points k_min k_step k_min_search (i_point + 1) ?m1
                = Some (?m1\<lparr>features_buf := f'\<rparr>) \<and>
              length f' = length (features_buf ?m1) \<and>
              (\<forall>n. 11 * unat (i_point + 1) \<le> n \<and> n < 11 * nat (sint n_points) \<longrightarrow> f' ! n = 0) \<and>
              (\<forall>n. n < 11 * unat (i_point + 1) \<or> 11 * nat (sint n_points) \<le> n \<longrightarrow>
                   f' ! n = features_buf ?m1 ! n)"
      using lt less.prems len1 by (intro less.hyps) (simp_all add: s N_def)
    then obtain f' where
      pl: "points_loop solver n_points k_min k_step k_min_search (i_point + 1) ?m1
                = Some (m\<lparr>features_buf := f'\<rparr>)"
      and len: "length f' = length f1"
      and z: "\<forall>n. 11 * Suc (unat i_point) \<le> n \<and> n < 11 * N \<longrightarrow> f' ! n = 0"
      and fr: "\<forall>n. n < 11 * Suc (unat i_point) \<or> 11 * N \<le> n \<longrightarrow> f' ! n = f1 ! n"
      unfolding s N_def [symmetric] by auto
    have "points_loop solver n_points k_min k_step k_min_search i_point m = Some (m\<lparr>features_buf := f'\<rparr>)"
      using True ps pl by (subst points_loop.simps) simp
    moreover have "\<forall>n. 11 * unat i_point \<le> n \<and> n < 11 * N \<longrightarrow> f' ! n = 0"
    proof (intro allI impI)
      fix n assume n: "11 * unat i_point \<le> n \<and> n < 11 * N"
      show "f' ! n = 0"
      proof (cases "11 * Suc (unat i_point) \<le> n")
        case True
        with z n show ?thesis by blast
      next
        case False
        then obtain j where j: "n = 11 * unat i_point + j" "j < 11"
          using n by (metis add.commute le_Suc_ex less_diff_conv2 mult_Suc_right not_le add_diff_cancel_left' nat_add_left_cancel_less)
        with fr False have "f' ! n = f1 ! n" by simp
        with z1 j show ?thesis by simp
      qed
    qed
    moreover have "\<forall>n. n < 11 * unat i_point \<or> 11 * N \<le> n \<longrightarrow> f' ! n = features_buf m ! n"
    proof (intro allI impI)
      fix n assume n: "n < 11 * unat i_point \<or> 11 * N \<le> n"
      with lt have "n < 11 * Suc (unat i_point) \<or> 11 * N \<le> n" by auto
      with fr have "f' ! n = f1 ! n" by blast
      moreover from n lt have "n < 11 * unat i_point \<or> 11 * unat i_point + 10 < n" by auto
      with fr1 have "f1 ! n = features_buf m ! n" by blast
      ultimately show "f' ! n = features_buf m ! n" by simp
    qed
    moreover have "length f' = length (features_buf m)" using len len1 by simp
    ultimately show ?thesis unfolding N_def by blast
  qed
qed

text \<open>
  C10. With a negative \<^verbatim>\<open>k_min\<close>, \<^verbatim>\<open>compute_geometric_features\<close> returns with zero in
  all eleven slots of every one of the \<^verbatim>\<open>n_points\<close> points, whatever the neighbour
  counts in \<^verbatim>\<open>nn_ptr\<close> are: the comparison \<^verbatim>\<open>k_nn < k_min\<close> of line 140 is made in
  \<^verbatim>\<open>std::size_t\<close>, where the converted \<^verbatim>\<open>k_min\<close> is at least \<open>2\<^sup>6\<^sup>4 - 2\<^sup>3\<^sup>1\<close> and \<^verbatim>\<open>k_nn\<close>
  is below \<open>2\<^sup>3\<^sup>2\<close>. The rest of the buffer is left as it is.
\<close>

theorem negative_k_min_zero_fills_every_point:
  assumes "sint k_min < 0" and "0 \<le> sint n_points"
    and "nat (sint n_points) < length nn_ptr"
    and "11 * nat (sint n_points) \<le> length features"
  shows "\<exists>f'. compute_geometric_features solver xyz nn nn_ptr n_points features
                 k_min k_step k_min_search verbose
                = Some \<lparr>xyz_buf = xyz, nn_buf = nn, nn_ptr_buf = nn_ptr, features_buf = f'\<rparr> \<and>
              length f' = length features \<and>
              (\<forall>n<11 * nat (sint n_points). f' ! n = 0) \<and>
              (\<forall>n\<ge>11 * nat (sint n_points). f' ! n = features ! n)"
proof -
  let ?m = "\<lparr>xyz_buf = xyz, nn_buf = nn, nn_ptr_buf = nn_ptr, features_buf = features\<rparr>"
  from points_loop_negative_k_min [of k_min n_points 0 ?m solver k_step k_min_search] assms
  obtain f' where
    "points_loop solver n_points k_min k_step k_min_search 0 ?m = Some (?m\<lparr>features_buf := f'\<rparr>)"
    "length f' = length features"
    "\<forall>n. n < 11 * nat (sint n_points) \<longrightarrow> f' ! n = 0"
    "\<forall>n. 11 * nat (sint n_points) \<le> n \<longrightarrow> f' ! n = features ! n"
    by auto
  then show ?thesis
    by (intro exI [of _ f']) (simp add: compute_geometric_features_def)
qed

theorem negative_k_min_zero_fills_every_point_witness:
  "sint (- 1 :: cint) < 0 \<and> 0 \<le> sint (3 :: cint) \<and> nat (sint (3 :: cint)) < length ex_nn_ptr \<and>
   11 * nat (sint (3 :: cint)) \<le> length ex_features \<and>
   (\<exists>f'. compute_geometric_features ex_solver ex_xyz ex_nn ex_nn_ptr 3 ex_features (- 1) 1 1 False
           = Some \<lparr>xyz_buf = ex_xyz, nn_buf = ex_nn, nn_ptr_buf = ex_nn_ptr, features_buf = f'\<rparr> \<and>
         length f' = 33 \<and> (\<forall>n<33. f' ! n = 0))"
proof -
  have h: "sint (- 1 :: cint) < 0" "0 \<le> sint (3 :: cint)" "nat (sint (3 :: cint)) < length ex_nn_ptr"
    "11 * nat (sint (3 :: cint)) \<le> length ex_features"
    by (simp_all add: ex_nn_ptr_def ex_features_def)
  from negative_k_min_zero_fills_every_point [OF h, of ex_solver ex_xyz ex_nn 1 1 False]
  have "\<exists>f'. compute_geometric_features ex_solver ex_xyz ex_nn ex_nn_ptr 3 ex_features (- 1) 1 1 False
           = Some \<lparr>xyz_buf = ex_xyz, nn_buf = ex_nn, nn_ptr_buf = ex_nn_ptr, features_buf = f'\<rparr> \<and>
         length f' = 33 \<and> (\<forall>n<33. f' ! n = 0)"
    by (auto simp: ex_features_def)
  with h show ?thesis by blast
qed

section \<open>The features of one point\<close>

lemma verticality_of_SomeD:
  assumes "verticality_of pca a = Some vert"
  shows "let l0 = val pca ! 0; l1 = val pca ! 1; l2 = val pca ! 2;
             ux = l0 * \<bar>v0 pca ! 0\<bar> + l1 * \<bar>v1 pca ! 0\<bar> + l2 * \<bar>v2 pca ! 0\<bar>;
             uy = l0 * \<bar>v0 pca ! 1\<bar> + l1 * \<bar>v1 pca ! 1\<bar> + l2 * \<bar>v2 pca ! 1\<bar>;
             uz = l0 * \<bar>v0 pca ! 2\<bar> + l1 * \<bar>v1 pca ! 2\<bar> + l2 * \<bar>v2 pca ! 2\<bar>;
             norm = sqrt (ux * ux + uy * uy + uz * uz)
         in (0 < a \<longrightarrow> norm \<noteq> 0 \<and> vert = uz / norm) \<and> (\<not> 0 < a \<longrightarrow> vert = 0)"
proof (cases "0 < a")
  case False
  with assms show ?thesis by (simp add: verticality_of_def Let_def)
next
  case True
  with assms have "do {
          l0 \<leftarrow> rd (val pca) 0; l1 \<leftarrow> rd (val pca) 1; l2 \<leftarrow> rd (val pca) 2;
          v00 \<leftarrow> rd (v0 pca) 0; v10 \<leftarrow> rd (v1 pca) 0; v20 \<leftarrow> rd (v2 pca) 0;
          v01 \<leftarrow> rd (v0 pca) 1; v11 \<leftarrow> rd (v1 pca) 1; v21 \<leftarrow> rd (v2 pca) 1;
          v02 \<leftarrow> rd (v0 pca) 2; v12 \<leftarrow> rd (v1 pca) 2; v22 \<leftarrow> rd (v2 pca) 2;
          let unary_vector =
                [l0 * \<bar>v00\<bar> + l1 * \<bar>v10\<bar> + l2 * \<bar>v20\<bar>,
                 l0 * \<bar>v01\<bar> + l1 * \<bar>v11\<bar> + l2 * \<bar>v21\<bar>,
                 l0 * \<bar>v02\<bar> + l1 * \<bar>v12\<bar> + l2 * \<bar>v22\<bar>];
          norm \<leftarrow> fsqrt (unary_vector ! 0 * unary_vector ! 0
                         + unary_vector ! 1 * unary_vector ! 1
                         + unary_vector ! 2 * unary_vector ! 2);
          fdiv (unary_vector ! 2) norm
        } = Some vert"
    by (simp only: verticality_of_def if_True)
  then show ?thesis
    using True
    by (simp add: Let_def rd_bind fsqrt_bind fdiv_Some)
qed

lemma point_features_SomeD:
  assumes "point_features pca = Some fs"
  shows "let a0 = sqrt (val pca ! 0); a1 = sqrt (val pca ! 1); a2 = sqrt (val pca ! 2)
         in fs ! 0 = (a0 - a1) / (a0 + 0.001) \<and>
            fs ! 1 = (a1 - a2) / (a0 + 0.001) \<and>
            fs ! 2 = a2 / (a0 + 0.001) \<and>
            verticality_of pca a0 = Some (fs ! 3) \<and>
            fs ! 4 = v2 pca ! 0 \<and> fs ! 5 = v2 pca ! 1 \<and> fs ! 6 = v2 pca ! 2 \<and>
            fs ! 7 = a0 \<and>
            fs ! 8 = sqrt (a0 * a1 + 0.000001) \<and>
            fs ! 9 = (a0 * a1 * a2 + 0.000000001) powr (1 / 3) \<and>
            fs ! 10 = a2 / (a0 + a1 + a2 + 0.001)"
proof -
  from assms obtain vert where
    "verticality_of pca (sqrt (val pca ! 0)) = Some vert" and
    "fs = [(sqrt (val pca ! 0) - sqrt (val pca ! 1)) / (sqrt (val pca ! 0) + 0.001),
           (sqrt (val pca ! 1) - sqrt (val pca ! 2)) / (sqrt (val pca ! 0) + 0.001),
           sqrt (val pca ! 2) / (sqrt (val pca ! 0) + 0.001),
           vert, v2 pca ! 0, v2 pca ! 1, v2 pca ! 2,
           sqrt (val pca ! 0),
           sqrt (sqrt (val pca ! 0) * sqrt (val pca ! 1) + 0.000001),
           (sqrt (val pca ! 0) * sqrt (val pca ! 1) * sqrt (val pca ! 2) + 0.000000001) powr (1 / 3),
           sqrt (val pca ! 2) / (sqrt (val pca ! 0) + sqrt (val pca ! 1) + sqrt (val pca ! 2) + 0.001)]"
    unfolding point_features_def rd_bind fsqrt_bind fdiv_bind fpow_bind
    by (auto simp: bind_eq_Some_conv rd_bind rd_Some)
  then show ?thesis by (simp add: Let_def)
qed

lemma point_step_features:
  assumes "point_step solver k_min k_step k_min_search i_point m = Some (m', evaluated)"
    and "rd (nn_ptr_buf m) (i_point + 1) = Some p1" and "rd (nn_ptr_buf m) i_point = Some p0"
    and "0 \<le> sint k_min" and "sint k_min \<le> int (unat (p1 - p0))" and "p1 - p0 \<noteq> 0"
    and "unat i_point < 2 ^ 31"
    and "optimal_pca solver (xyz_buf m) (nn_buf m) (nn_ptr_buf m) i_point (ucast (p1 - p0))
           k_min k_step k_min_search = Some (Some (pca, k_optimal), ev)"
  shows "\<exists>fs. point_features pca = Some fs \<and> evaluated = ev \<and>
              (\<forall>j<11. features_buf m' ! (11 * unat i_point + j) = fs ! j)"
proof -
  from assms(1) obtain fs f where
    fs: "point_features pca = Some fs" and
    st: "store_features (features_buf m) i_point fs = Some f" and
    m': "m' = m\<lparr>features_buf := f\<rparr>" and ev: "evaluated = ev"
    unfolding point_step_nondegenerate [OF assms(2-6)] assms(8)
    by (auto simp: bind_eq_Some_conv)
  have "\<forall>j<11. f ! (11 * unat i_point + j) = fs ! j"
    unfolding all_less_11 using store_features_SomeD(4-14) [OF st assms(7)] by simp
  with fs m' ev show ?thesis by simp
qed

text \<open>
  C7. For a point that is not degenerate, with \<open>a0\<close>, \<open>a1\<close>, \<open>a2\<close> the square roots of the
  eigenvalues of the retained \<^verbatim>\<open>pca\<close>, the body of the loop stores linearity
  \<open>(a0 - a1) / (a0 + 0.001)\<close> in slot 0, planarity \<open>(a1 - a2) / (a0 + 0.001)\<close> in slot 1,
  scattering \<open>a2 / (a0 + 0.001)\<close> in slot 2, length \<open>a0\<close> in slot 7, surface
  \<open>sqrt (a0 * a1 + 10\<^sup>-\<^sup>6)\<close> in slot 8, volume \<open>(a0 * a1 * a2 + 10\<^sup>-\<^sup>9)\<close> to the power \<open>1 / 3\<close>
  in slot 9 and curvature \<open>a2 / (a0 + a1 + a2 + 0.001)\<close> in slot 10.
\<close>

theorem point_step_dimensionality_features:
  assumes "point_step solver k_min k_step k_min_search i_point m = Some (m', evaluated)"
    and "rd (nn_ptr_buf m) (i_point + 1) = Some p1" and "rd (nn_ptr_buf m) i_point = Some p0"
    and "0 \<le> sint k_min" and "sint k_min \<le> int (unat (p1 - p0))" and "p1 - p0 \<noteq> 0"
    and "unat i_point < 2 ^ 31"
    and "optimal_pca solver (xyz_buf m) (nn_buf m) (nn_ptr_buf m) i_point (ucast (p1 - p0))
           k_min k_step k_min_search = Some (Some (pca, k_optimal), ev)"
  shows "let a0 = sqrt (val pca ! 0); a1 = sqrt (val pca ! 1); a2 = sqrt (val pca ! 2);
             f = features_buf m'; b = 11 * unat i_point
         in f ! (b + 0) = (a0 - a1) / (a0 + 0.001) \<and>
            f ! (b + 1) = (a1 - a2) / (a0 + 0.001) \<and>
            f ! (b + 2) = a2 / (a0 + 0.001) \<and>
            f ! (b + 7) = a0 \<and>
            f ! (b + 8) = sqrt (a0 * a1 + 0.000001) \<and>
            f ! (b + 9) = (a0 * a1 * a2 + 0.000000001) powr (1 / 3) \<and>
            f ! (b + 10) = a2 / (a0 + a1 + a2 + 0.001)"
proof -
  from point_step_features [OF assms] obtain fs where
    fs: "point_features pca = Some fs" and
    st: "\<forall>j<11. features_buf m' ! (11 * unat i_point + j) = fs ! j"
    by blast
  from st have "features_buf m' ! (11 * unat i_point + 0) = fs ! 0"
    "features_buf m' ! (11 * unat i_point + 1) = fs ! 1"
    "features_buf m' ! (11 * unat i_point + 2) = fs ! 2"
    "features_buf m' ! (11 * unat i_point + 7) = fs ! 7"
    "features_buf m' ! (11 * unat i_point + 8) = fs ! 8"
    "features_buf m' ! (11 * unat i_point + 9) = fs ! 9"
    "features_buf m' ! (11 * unat i_point + 10) = fs ! 10"
    unfolding all_less_11 by simp_all
  with point_features_SomeD [OF fs] show ?thesis
    by (simp add: Let_def)
qed

theorem point_step_dimensionality_features_witness:
  "\<exists>m' pca. point_step ex_solver 1 0 1 0 ex_buffers = Some (m', [3]) \<and>
     rd (nn_ptr_buf ex_buffers) (0 + 1) = Some 3 \<and> rd (nn_ptr_buf ex_buffers) 0 = Some 0 \<and>
     0 \<le> sint (1 :: cint) \<and> sint (1 :: cint) \<le> int (unat (3 - 0 :: uint32_t)) \<and>
     (3 - 0 :: uint32_t) \<noteq> 0 \<and> unat (0 :: size_t) < 2 ^ 31 \<and>
     optimal_pca ex_solver (xyz_buf ex_buffers) (nn_buf ex_buffers) (nn_ptr_buf ex_buffers)
       0 (ucast (3 - 0 :: uint32_t)) 1 0 1 = Some (Some (pca, 3), [3]) \<and>
     val pca = [2048 / 3, 0, 0] \<and>
     features_buf m' ! 0 = sqrt (2048 / 3) / (sqrt (2048 / 3) + 0.001) \<and>
     features_buf m' ! 1 = 0 \<and> features_buf m' ! 2 = 0 \<and>
     features_buf m' ! 7 = sqrt (2048 / 3) \<and>
     features_buf m' ! 8 = sqrt 0.000001 \<and>
     features_buf m' ! 9 = 0.000000001 powr (1 / 3) \<and>
     features_buf m' ! 10 = 0"
proof -
  from ex_point_step_no_search obtain m' h where
    ps: "point_step ex_solver 1 0 1 0 ex_buffers = Some (m', [3])" and
    opt: "optimal_pca ex_solver (xyz_buf ex_buffers) (nn_buf ex_buffers) (nn_ptr_buf ex_buffers)
            0 (ucast (3 - 0 :: uint32_t)) 1 0 1 =
            Some (Some (\<lparr>val = [2048 / 3, 0, 0], v0 = [- 1, 0, 0], v1 = [0, - 1, 0],
                          v2 = [0, 0, 1], eigenentropy = h\<rparr>, 3), [3])"
    by blast
  have h: "rd (nn_ptr_buf ex_buffers) (0 + 1) = Some 3" "rd (nn_ptr_buf ex_buffers) 0 = Some 0"
    "0 \<le> sint (1 :: cint)" "sint (1 :: cint) \<le> int (unat (3 - 0 :: uint32_t))"
    "(3 - 0 :: uint32_t) \<noteq> 0" "unat (0 :: size_t) < 2 ^ 31"
    by (simp_all add: ex_buffers_def ex_nn_ptr_def rd_def)
  from point_step_dimensionality_features [OF ps h opt]
  have "features_buf m' ! 0 = sqrt (2048 / 3) / (sqrt (2048 / 3) + 0.001) \<and>
     features_buf m' ! 1 = 0 \<and> features_buf m' ! 2 = 0 \<and>
     features_buf m' ! 7 = sqrt (2048 / 3) \<and>
     features_buf m' ! 8 = sqrt 0.000001 \<and>
     features_buf m' ! 9 = 0.000000001 powr (1 / 3) \<and>
     features_buf m' ! 10 = 0"
    by (simp add: Let_def numeral_2_eq_2)
  moreover have "val \<lparr>val = [2048 / 3, 0, 0], v0 = [- 1, 0, 0], v1 = [0, - 1, 0],
                          v2 = [0, 0, 1], eigenentropy = h\<rparr> = [2048 / 3, 0, 0]"
    by simp
  ultimately show ?thesis using ps h opt by blast
qed

text \<open>
  C8. For a point that is not degenerate, with \<open>a0\<close> the square root of the first eigenvalue
  of the retained \<^verbatim>\<open>pca\<close> and \<open>u\<close> the sum of the component-wise absolute values of the
  three eigenvectors, each weighted by its eigenvalue: if \<open>a0 > 0\<close>, the verticality in
  slot 3 is \<open>u.z\<close> divided by the norm of \<open>u\<close> (which is then not zero); if \<open>a0 = 0\<close>, it is
  zero. There is no third case, as \<open>a0\<close> is not negative.
\<close>

theorem point_step_verticality:
  assumes "point_step solver k_min k_step k_min_search i_point m = Some (m', evaluated)"
    and "rd (nn_ptr_buf m) (i_point + 1) = Some p1" and "rd (nn_ptr_buf m) i_point = Some p0"
    and "0 \<le> sint k_min" and "sint k_min \<le> int (unat (p1 - p0))" and "p1 - p0 \<noteq> 0"
    and "unat i_point < 2 ^ 31"
    and "optimal_pca solver (xyz_buf m) (nn_buf m) (nn_ptr_buf m) i_point (ucast (p1 - p0))
           k_min k_step k_min_search = Some (Some (pca, k_optimal), ev)"
  shows "let l0 = val pca ! 0; l1 = val pca ! 1; l2 = val pca ! 2; a0 = sqrt l0;
             ux = l0 * \<bar>v0 pca ! 0\<bar> + l1 * \<bar>v1 pca ! 0\<bar> + l2 * \<bar>v2 pca ! 0\<bar>;
             uy = l0 * \<bar>v0 pca ! 1\<bar> + l1 * \<bar>v1 pca ! 1\<bar> + l2 * \<bar>v2 pca ! 1\<bar>;
             uz = l0 * \<bar>v0 pca ! 2\<bar> + l1 * \<bar>v1 pca ! 2\<bar> + l2 * \<bar>v2 pca ! 2\<bar>;
             norm = sqrt (ux * ux + uy * uy + uz * uz);
             verticality = features_buf m' ! (11 * unat i_point + 3)
         in (0 < a0 \<longrightarrow> norm \<noteq> 0 \<and> verticality = uz / norm) \<and>
            (a0 = 0 \<longrightarrow> verticality = 0) \<and> 0 \<le> a0"
proof -
  from point_step_features [OF assms] obtain fs where
    fs: "point_features pca = Some fs" and
    st: "\<forall>j<11. features_buf m' ! (11 * unat i_point + j) = fs ! j"
    by blast
  from st have slot: "features_buf m' ! (11 * unat i_point + 3) = fs ! 3"
    unfolding all_less_11 by simp
  from point_features_SomeD [OF fs]
  have v: "verticality_of pca (sqrt (val pca ! 0)) = Some (fs ! 3)"
    by (simp add: Let_def)
  from fs have "0 \<le> val pca ! 0"
    unfolding point_features_def rd_bind fsqrt_bind by simp
  then have "0 \<le> sqrt (val pca ! 0)" by simp
  with verticality_of_SomeD [OF v] slot show ?thesis
    by (simp add: Let_def)
qed

theorem point_step_verticality_witness:
  "\<exists>m' pca. point_step ex_solver 1 0 1 0 ex_buffers = Some (m', [3]) \<and>
     rd (nn_ptr_buf ex_buffers) (0 + 1) = Some 3 \<and> rd (nn_ptr_buf ex_buffers) 0 = Some 0 \<and>
     0 \<le> sint (1 :: cint) \<and> sint (1 :: cint) \<le> int (unat (3 - 0 :: uint32_t)) \<and>
     (3 - 0 :: uint32_t) \<noteq> 0 \<and> unat (0 :: size_t) < 2 ^ 31 \<and>
     optimal_pca ex_solver (xyz_buf ex_buffers) (nn_buf ex_buffers) (nn_ptr_buf ex_buffers)
       0 (ucast (3 - 0 :: uint32_t)) 1 0 1 = Some (Some (pca, 3), [3]) \<and>
     val pca = [2048 / 3, 0, 0] \<and> v0 pca = [- 1, 0, 0] \<and> v1 pca = [0, - 1, 0] \<and>
     v2 pca = [0, 0, 1] \<and> 0 < sqrt (val pca ! 0) \<and>
     features_buf m' ! 3 = 0 / sqrt (2048 / 3 * (2048 / 3))"
proof -
  from ex_point_step_no_search obtain m' h where
    ps: "point_step ex_solver 1 0 1 0 ex_buffers = Some (m', [3])" and
    opt: "optimal_pca ex_solver (xyz_buf ex_buffers) (nn_buf ex_buffers) (nn_ptr_buf ex_buffers)
            0 (ucast (3 - 0 :: uint32_t)) 1 0 1 =
            Some (Some (\<lparr>val = [2048 / 3, 0, 0], v0 = [- 1, 0, 0], v1 = [0, - 1, 0],
                          v2 = [0, 0, 1], eigenentropy = h\<rparr>, 3), [3])"
    by blast
  have h: "rd (nn_ptr_buf ex_buffers) (0 + 1) = Some 3" "rd (nn_ptr_buf ex_buffers) 0 = Some 0"
    "0 \<le> sint (1 :: cint)" "sint (1 :: cint) \<le> int (unat (3 - 0 :: uint32_t))"
    "(3 - 0 :: uint32_t) \<noteq> 0" "unat (0 :: size_t) < 2 ^ 31"
    by (simp_all add: ex_buffers_def ex_nn_ptr_def rd_def)
  from point_step_verticality [OF ps h opt]
  have "features_buf m' ! 3 = 0 / sqrt (2048 / 3 * (2048 / 3))"
    by (simp add: Let_def)
  moreover have "val \<lparr>val = [2048 / 3, 0, 0], v0 = [- 1, 0, 0], v1 = [0, - 1, 0],
                          v2 = [0, 0, 1], eigenentropy = h\<rparr> = [2048 / 3, 0, 0]"
    "v0 \<lparr>val = [2048 / 3, 0, 0], v0 = [- 1, 0, 0], v1 = [0, - 1, 0],
                          v2 = [0, 0, 1], eigenentropy = h\<rparr> = [- 1, 0, 0]"
    "v1 \<lparr>val = [2048 / 3, 0, 0], v0 = [- 1, 0, 0], v1 = [0, - 1, 0],
                          v2 = [0, 0, 1], eigenentropy = h\<rparr> = [0, - 1, 0]"
    "v2 \<lparr>val = [2048 / 3, 0, 0], v0 = [- 1, 0, 0], v1 = [0, - 1, 0],
                          v2 = [0, 0, 1], eigenentropy = h\<rparr> = [0, 0, 1]"
    "0 < sqrt (val \<lparr>val = [2048 / 3, 0, 0], v0 = [- 1, 0, 0], v1 = [0, - 1, 0],
                          v2 = [0, 0, 1], eigenentropy = h\<rparr> ! 0)"
    by simp_all
  ultimately show ?thesis using ps h opt by blast
qed

section \<open>The adaptive search\<close>

lemma search_loop_evaluated:
  "search_loop solver xyz nn nn_ptr i_point k_nn k_step k0 k pca evaluated = Some (best, ev') \<Longrightarrow>
   k \<le> j \<Longrightarrow> j < k_nn + 1 \<Longrightarrow> candidate k0 (scast k_step) k_nn j \<Longrightarrow>
   \<exists>q. neighborhood_pca solver xyz nn nn_ptr i_point j = Some q"
proof (induction solver xyz nn nn_ptr i_point k_nn k_step k0 k pca evaluated rule: search_loop.induct)
  case (1 solver xyz nn nn_ptr i_point k_nn k_step k0 k pca evaluated)
  note [simp] = search_loop.simps
  from "1.prems"(2,3) have True: "k < k_nn + 1" by simp
  from "1.prems"(1) True obtain skip where
    skip: "(if k > k0 then do { r \<leftarrow> umod k (scast k_step); Some (r \<noteq> 0 \<and> k \<noteq> k_nn) }
            else Some False) = Some skip"
    by (auto simp: bind_eq_Some_conv)
  then have skip_eq: "skip \<longleftrightarrow> \<not> candidate k0 (scast k_step) k_nn k"
    by (auto simp: candidate_def umod_def bind_eq_Some_conv split: if_splits)
  from "1.prems"(2) word_le_succ [OF True] have j: "j = k \<or> k + 1 \<le> j" by blast
  show ?case
  proof (cases skip)
    case True
    with "1.prems"(1) \<open>k < k_nn + 1\<close> skip
    have rec: "search_loop solver xyz nn nn_ptr i_point k_nn k_step k0 (k + 1) pca evaluated = Some (best, ev')"
      by (simp del: search_loop.simps add: search_loop.simps [of _ _ _ _ _ _ _ _ k])
    from j True skip_eq "1.prems"(4) have "k + 1 \<le> j" by blast
    from "1.IH"(1) [OF \<open>k < k_nn + 1\<close> skip True rec this "1.prems"(3,4)]
    show ?thesis .
  next
    case False
    with "1.prems"(1) \<open>k < k_nn + 1\<close> skip obtain pca_k better where
      pk: "neighborhood_pca solver xyz nn nn_ptr i_point k = Some pca_k" and
      b: "(if k = k0 then Some True
           else case pca of None \<Rightarrow> None
                | Some (p, k_optimal) \<Rightarrow> Some (eigenentropy pca_k < eigenentropy p)) = Some better" and
      rec: "search_loop solver xyz nn nn_ptr i_point k_nn k_step k0 (k + 1)
              (if better then Some (pca_k, k) else pca) (evaluated @ [k]) = Some (best, ev')"
      by (auto simp del: search_loop.simps simp add: search_loop.simps [of _ _ _ _ _ _ _ _ k] bind_eq_Some_conv)
    from j show ?thesis
    proof
      assume "j = k"
      with pk show ?thesis by blast
    next
      assume "k + 1 \<le> j"
      from "1.IH"(2) [OF \<open>k < k_nn + 1\<close> skip False pk b rec this "1.prems"(3,4)]
      show ?thesis .
    qed
  qed
qed

lemma scast_step_nonzero:
  assumes "1 \<le> sint (k_step :: cint)"
  shows "(scast k_step :: size_t) \<noteq> 0" and "unat (scast k_step :: size_t) = nat (sint k_step)"
proof -
  show u: "unat (scast k_step :: size_t) = nat (sint k_step)"
    using assms by (intro unat_scast_nonneg) simp
  show "(scast k_step :: size_t) \<noteq> 0"
  proof
    assume "(scast k_step :: size_t) = 0"
    then have "unat (scast k_step :: size_t) = 0" by simp
    with u assms show False by simp
  qed
qed

lemma sint_std_max: "sint (std_max a b) = max (sint a) (sint b)"
  by (simp add: std_max_def max_def)

lemma sint_std_min: "sint (std_min a b) = min (sint a) (sint b)"
  by (simp add: std_min_def min_def)

lemma sint_ucast_64_32:
  assumes "unat (w :: size_t) < 2 ^ 31"
  shows "sint (ucast w :: cint) = int (unat w)"
proof -
  have u: "uint w = int (unat w)" by (simp only: uint_nat)
  from assms have "int (unat w) < int (2 ^ 31)" by (simp only: of_nat_less_iff)
  then have "int (unat w) < 2 ^ 31" by (simp only: of_nat_power of_nat_numeral)
  then have "uint w < 2 ^ 31" by (simp only: u)
  moreover have "- (2 ^ 31) \<le> uint w"
  proof -
    have "(0 :: int) \<le> 2 ^ 31" by simp
    with uint_nonnegative [of w] show ?thesis by linarith
  qed
  ultimately have "signed_take_bit 31 (uint w) = uint w"
    by (intro signed_take_bit_int_eq_self)
  then have "sint (ucast w :: cint) = uint w"
    by (simp add: signed_ucast_eq)
  then show ?thesis by (simp only: u)
qed

lemma unat_search_start:
  assumes "0 \<le> sint k_min" and "unat k_nn < 2 ^ 31"
  shows "unat (search_start k_min k_min_search k_nn)
           = nat (min (max (sint k_min) (sint k_min_search)) (int (unat k_nn)))"
proof -
  have "sint (std_min (std_max k_min k_min_search) (ucast k_nn))
          = min (max (sint k_min) (sint k_min_search)) (int (unat k_nn))"
    by (simp only: sint_std_min sint_std_max sint_ucast_64_32 [OF assms(2)])
  moreover have "0 \<le> min (max (sint k_min) (sint k_min_search)) (int (unat k_nn))"
    using assms(1) by simp
  ultimately show ?thesis
    unfolding search_start_def by (simp add: unat_scast_nonneg)
qed


lemma candidate_unat:
  "candidate k0 s k_nn j \<longleftrightarrow>
     unat j \<le> unat k0 \<or> unat j mod unat s = 0 \<or> unat j = unat k_nn"
proof -
  have "j mod s = 0 \<longleftrightarrow> unat (j mod s) = 0" by (simp add: unat_eq_zero)
  then have "j mod s = 0 \<longleftrightarrow> unat j mod unat s = 0" by (simp add: unat_mod)
  then show ?thesis
    by (simp add: candidate_def word_le_nat_alt word_unat_eq_iff)
qed

lemma ex_search_start: "search_start 1 1 3 = 1"
  by (simp add: search_start_def std_min_def std_max_def)

lemma ex_search_3:
  "\<exists>p' j'. search_loop ex_solver ex_xyz ex_nn ex_nn_ptr 0 3 2 1 3 (Some (p, j)) ev
            = Some (Some (p', j'), ev @ [3])"
proof -
  obtain p3 where p3: "neighborhood_pca ex_solver ex_xyz ex_nn ex_nn_ptr 0 3 = Some p3"
    using neighborhood_pca_total [OF ex_cov3] by blast
  have "search_loop ex_solver ex_xyz ex_nn ex_nn_ptr 0 3 2 1 3 (Some (p, j)) ev
          = Some (if eigenentropy p3 < eigenentropy p then Some (p3, 3) else Some (p, j), ev @ [3])"
    by (subst search_loop_later) (simp_all add: candidate_def p3 search_loop_exit)
  then show ?thesis by (cases "eigenentropy p3 < eigenentropy p") simp_all
qed

lemma ex_search_2:
  "\<exists>p' j'. search_loop ex_solver ex_xyz ex_nn ex_nn_ptr 0 3 2 1 2 (Some (p, j)) ev
            = Some (Some (p', j'), ev @ [2, 3])"
proof -
  obtain p2 where p2: "neighborhood_pca ex_solver ex_xyz ex_nn ex_nn_ptr 0 2 = Some p2"
    using neighborhood_pca_total [OF ex_cov2] by blast
  have "search_loop ex_solver ex_xyz ex_nn ex_nn_ptr 0 3 2 1 2 (Some (p, j)) ev
          = search_loop ex_solver ex_xyz ex_nn ex_nn_ptr 0 3 2 1 3
              (if eigenentropy p2 < eigenentropy p then Some (p2, 2) else Some (p, j)) (ev @ [2])"
    by (subst search_loop_later) (simp_all add: candidate_def p2)
  then show ?thesis
    using ex_search_3 [of p2 2 "ev @ [2]"] ex_search_3 [of p j "ev @ [2]"]
    by (cases "eigenentropy p2 < eigenentropy p") simp_all
qed

lemma ex_optimal_pca_search:
  "\<exists>p' j'. optimal_pca ex_solver ex_xyz ex_nn ex_nn_ptr 0 3 1 2 1 = Some (Some (p', j'), [1, 2, 3])"
proof -
  obtain p1 where p1: "neighborhood_pca ex_solver ex_xyz ex_nn ex_nn_ptr 0 1 = Some p1"
    using neighborhood_pca_total [OF ex_cov1] by blast
  have "optimal_pca ex_solver ex_xyz ex_nn ex_nn_ptr 0 3 1 2 1
          = search_loop ex_solver ex_xyz ex_nn ex_nn_ptr 0 3 2 1 2 (Some (p1, 1)) [1]"
    by (simp add: optimal_pca_def ex_search_start search_loop_first p1)
  with ex_search_2 [of p1 1 "[1]"] show ?thesis by simp
qed

text \<open>
  C1, as stated, fails: for the first point of the concrete input, with \<^verbatim>\<open>k_min = 1\<close>,
  \<^verbatim>\<open>k_step = 2\<close> and \<^verbatim>\<open>k_min_search = 1\<close>, the search starts at \<open>k0 = 1\<close> and evaluates the
  sizes 1, 2 and 3, while the progression \<open>k0, k0 + k_step, ...\<close> together with \<open>k_nn = 3\<close> is
  1 and 3.
\<close>

theorem candidate_sizes_counterexample:
  "map_option snd (optimal_pca ex_solver ex_xyz ex_nn ex_nn_ptr 0 3 1 2 1) = Some [1, 2, 3] \<and>
   search_start 1 1 3 = 1 \<and>
   spec_candidates 1 2 3 = [1, 3, 3] \<and>
   set (map unat [1, 2, 3 :: size_t]) \<noteq> set (spec_candidates 1 2 3)"
proof -
  from ex_optimal_pca_search
  have "map_option snd (optimal_pca ex_solver ex_xyz ex_nn ex_nn_ptr 0 3 1 2 1) = Some [1, 2, 3]"
    by auto
  moreover have sc: "spec_candidates 1 2 3 = [1, 3, 3]"
    by (simp add: spec_candidates_def upt_rec)
  moreover have "set (map unat [1, 2, 3 :: size_t]) \<noteq> set (spec_candidates 1 2 3)"
    unfolding sc by auto
  ultimately show ?thesis using ex_search_start by blast
qed

text \<open>
  C1, amended. With \<^verbatim>\<open>k_step \<ge> 1\<close>, \<^verbatim>\<open>k_min \<ge> 0\<close> (as for every point that is not degenerate)
  and fewer than \<open>2\<^sup>3\<^sup>1\<close> neighbours, a search that returns has evaluated exactly the sizes
  \<open>k0 = min (max k_min k_min_search) k_nn\<close>, the multiples of \<^verbatim>\<open>k_step\<close> strictly between \<open>k0\<close>
  and \<open>k_nn\<close>, and \<open>k_nn\<close>: the stride is counted from zero (line 178 tests
  \<^verbatim>\<open>k % k_step\<close>), not from \<open>k0\<close>.
\<close>

theorem adaptive_search_candidate_sizes:
  assumes "1 \<le> sint k_step" and "0 \<le> sint k_min" and "unat k_nn < 2 ^ 31"
    and "optimal_pca solver xyz nn nn_ptr i_point k_nn k_min k_step k_min_search
           = Some (best, evaluated)"
  shows "let k0 = nat (min (max (sint k_min) (sint k_min_search)) (int (unat k_nn)))
         in unat ` set evaluated =
              {k0} \<union> {k. k0 < k \<and> k < unat k_nn \<and> k mod nat (sint k_step) = 0} \<union> {unat k_nn}"
proof -
  define k0w where "k0w = search_start k_min k_min_search k_nn"
  define k0 where "k0 = nat (min (max (sint k_min) (sint k_min_search)) (int (unat k_nn)))"
  define st where "st = nat (sint k_step)"
  have k0w: "unat k0w = k0"
    unfolding k0w_def k0_def by (rule unat_search_start [OF assms(2,3)])
  have "min (max (sint k_min) (sint k_min_search)) (int (unat k_nn)) \<le> int (unat k_nn)"
    by (rule min.cobounded2)
  then have "nat (min (max (sint k_min) (sint k_min_search)) (int (unat k_nn)))
               \<le> nat (int (unat k_nn))"
    by (rule nat_mono)
  then have k0_le: "k0 \<le> unat k_nn" by (simp only: nat_int k0_def)
  have st: "unat (scast k_step :: size_t) = st"
    unfolding st_def by (rule scast_step_nonzero(2) [OF assms(1)])
  have "k_nn < 2 ^ 31" using assms(3) by (simp add: word_less_nat_alt)
  then have succ: "unat (k_nn + 1) = Suc (unat k_nn)" by (rule unat_succ)
  from assms(1,4) have "search_loop solver xyz nn nn_ptr i_point k_nn k_step k0w k0w None []
                          = Some (best, evaluated)"
    by (simp add: optimal_pca_def Let_def k0w_def)
  from search_loop_trace [OF this]
  have tr: "set evaluated = {j. k0w \<le> j \<and> j < k_nn + 1 \<and> candidate k0w (scast k_step) k_nn j}"
    by simp
  have mem: "j \<in> set evaluated \<longleftrightarrow>
               k0 \<le> unat j \<and> unat j \<le> unat k_nn \<and>
               (unat j \<le> k0 \<or> unat j mod st = 0 \<or> unat j = unat k_nn)" for j
    unfolding tr by (simp add: candidate_unat word_le_nat_alt word_less_nat_alt succ k0w st less_Suc_eq_le)
  have "unat ` set evaluated =
          {n. k0 \<le> n \<and> n \<le> unat k_nn \<and> (n \<le> k0 \<or> n mod st = 0 \<or> n = unat k_nn)}"
  proof (rule set_eqI, rule iffI)
    fix n assume "n \<in> unat ` set evaluated"
    then show "n \<in> {n. k0 \<le> n \<and> n \<le> unat k_nn \<and> (n \<le> k0 \<or> n mod st = 0 \<or> n = unat k_nn)}"
      using mem by auto
  next
    fix n assume n: "n \<in> {n. k0 \<le> n \<and> n \<le> unat k_nn \<and> (n \<le> k0 \<or> n mod st = 0 \<or> n = unat k_nn)}"
    then have "n < 2 ^ 64" using assms(3) by simp
    then have u: "unat (of_nat n :: size_t) = n" by (simp add: unat_of_nat)
    with n have "(of_nat n :: size_t) \<in> set evaluated" by (simp add: mem)
    with u show "n \<in> unat ` set evaluated" by (metis imageI)
  qed
  also have "\<dots> = {k0} \<union> {k. k0 < k \<and> k < unat k_nn \<and> k mod st = 0} \<union> {unat k_nn}"
    using k0_le by auto
  finally show ?thesis by (simp add: Let_def k0_def st_def)
qed

theorem adaptive_search_candidate_sizes_witness:
  "1 \<le> sint (2 :: cint) \<and> 0 \<le> sint (1 :: cint) \<and> unat (3 :: size_t) < 2 ^ 31 \<and>
   (\<exists>best. optimal_pca ex_solver ex_xyz ex_nn ex_nn_ptr 0 3 1 2 1 = Some (best, [1, 2, 3]) \<and>
      unat ` set [1, 2, 3 :: size_t] = {1} \<union> {k. 1 < k \<and> k < 3 \<and> k mod 2 = 0} \<union> {3})"
proof -
  have h: "1 \<le> sint (2 :: cint)" "0 \<le> sint (1 :: cint)" "unat (3 :: size_t) < 2 ^ 31"
    by simp_all
  from ex_optimal_pca_search obtain best where
    opt: "optimal_pca ex_solver ex_xyz ex_nn ex_nn_ptr 0 3 1 2 1 = Some (best, [1, 2, 3])"
    by blast
  from adaptive_search_candidate_sizes [OF h opt]
  have "unat ` set [1, 2, 3 :: size_t] = {1} \<union> {k. 1 < k \<and> k < 3 \<and> k mod 2 = 0} \<union> {3}"
    by (simp add: Let_def)
  with h opt show ?thesis by blast
qed

text \<open>
  C3. In a search that returns, the start \<open>k0\<close> is evaluated and is the smallest evaluated
  size; the retained result is the result of \<^verbatim>\<open>neighborhood_pca\<close> at the retained size;
  its eigenentropy is at most that of every evaluated size and strictly below that of
  every smaller evaluated size. So the retained size is the smallest evaluated size of
  minimal eigenentropy: on a tie the earlier candidate stays. The lemmas
  \<open>search_loop_first\<close> and \<open>search_loop_later\<close> are the two steps of the rule: the first
  iteration installs \<open>k0\<close>, a later one replaces the incumbent exactly when its
  eigenentropy is strictly lower.
\<close>

theorem adaptive_search_keeps_first_minimum:
  assumes "1 \<le> sint k_step"
    and "optimal_pca solver xyz nn nn_ptr i_point k_nn k_min k_step k_min_search
           = Some (Some (p, k_opt), evaluated)"
  shows "search_start k_min k_min_search k_nn \<in> set evaluated \<and>
         (\<forall>k\<in>set evaluated. search_start k_min k_min_search k_nn \<le> k) \<and>
         k_opt \<in> set evaluated \<and>
         neighborhood_pca solver xyz nn nn_ptr i_point k_opt = Some p \<and>
         (\<forall>k\<in>set evaluated.
            \<exists>q. neighborhood_pca solver xyz nn nn_ptr i_point k = Some q \<and>
                eigenentropy p \<le> eigenentropy q \<and>
                (k < k_opt \<longrightarrow> eigenentropy p < eigenentropy q))"
proof -
  define k0 where "k0 = search_start k_min k_min_search k_nn"
  note nz = scast_step_nonzero(1) [OF assms(1)]
  from assms have loop: "search_loop solver xyz nn nn_ptr i_point k_nn k_step k0 k0 None []
                          = Some (Some (p, k_opt), evaluated)"
    by (simp add: optimal_pca_def Let_def k0_def)
  have lt: "k0 < k_nn + 1"
  proof (rule ccontr)
    assume "\<not> k0 < k_nn + 1"
    with loop show False by (simp add: search_loop_exit)
  qed
  from loop obtain pk where
    pk: "neighborhood_pca solver xyz nn nn_ptr i_point k0 = Some pk" and
    rest: "search_loop solver xyz nn nn_ptr i_point k_nn k_step k0 (k0 + 1) (Some (pk, k0)) [k0]
            = Some (Some (p, k_opt), evaluated)"
    unfolding search_loop_first [OF lt] by (auto simp: bind_eq_Some_conv)
  have k01: "k0 < k0 + 1" using word_lt_succ [OF lt, of k0] by simp
  have le0: "\<And>j. k0 + 1 \<le> j \<Longrightarrow> k0 < j" using k01 by simp
  from search_loop_trace [OF rest]
  have tr: "set evaluated = {k0} \<union> {j. k0 + 1 \<le> j \<and> j < k_nn + 1 \<and> candidate k0 (scast k_step) k_nn j}"
    by simp
  from search_loop_best [OF rest k01 nz] have
    e0: "eigenentropy p \<le> eigenentropy pk" and
    mn: "\<And>j q. k0 + 1 \<le> j \<Longrightarrow> j < k_nn + 1 \<Longrightarrow> candidate k0 (scast k_step) k_nn j \<Longrightarrow>
                  neighborhood_pca solver xyz nn nn_ptr i_point j = Some q \<Longrightarrow>
                  eigenentropy p \<le> eigenentropy q" and
    d: "(p, k_opt) = (pk, k0) \<or>
            (k0 + 1 \<le> k_opt \<and> k_opt < k_nn + 1 \<and> candidate k0 (scast k_step) k_nn k_opt \<and>
             neighborhood_pca solver xyz nn nn_ptr i_point k_opt = Some p \<and>
             eigenentropy p < eigenentropy pk \<and>
             (\<forall>j q. k0 + 1 \<le> j \<longrightarrow> j < k_opt \<longrightarrow> candidate k0 (scast k_step) k_nn j \<longrightarrow>
                    neighborhood_pca solver xyz nn nn_ptr i_point j = Some q \<longrightarrow>
                    eigenentropy p < eigenentropy q))"
    by auto
  have in_ev: "k_opt \<in> set evaluated" using d tr by auto
  have at: "neighborhood_pca solver xyz nn nn_ptr i_point k_opt = Some p" using d pk by auto
  have "\<exists>q. neighborhood_pca solver xyz nn nn_ptr i_point k = Some q \<and>
                eigenentropy p \<le> eigenentropy q \<and>
                (k < k_opt \<longrightarrow> eigenentropy p < eigenentropy q)"
    if "k \<in> set evaluated" for k
  proof -
    from that tr consider "k = k0"
      | "k0 + 1 \<le> k" "k < k_nn + 1" "candidate k0 (scast k_step) k_nn k"
      by auto
    then show ?thesis
    proof cases
      case 1
      have "k0 < k_opt \<longrightarrow> eigenentropy p < eigenentropy pk" using d by auto
      with 1 pk e0 show ?thesis by simp
    next
      case 2
      from search_loop_evaluated [OF rest 2] obtain q where
        q: "neighborhood_pca solver xyz nn nn_ptr i_point k = Some q" by blast
      have "eigenentropy p \<le> eigenentropy q" using mn [OF 2 q] .
      moreover have "eigenentropy p < eigenentropy q" if "k < k_opt"
      proof -
        from le0 [OF 2(1)] that have "k_opt \<noteq> k0" by auto
        with d 2 q that show ?thesis by auto
      qed
      ultimately show ?thesis using q by blast
    qed
  qed
  moreover have "k0 \<in> set evaluated" using tr by simp
  moreover have "\<forall>k\<in>set evaluated. k0 \<le> k" using tr le0 by (auto intro: less_imp_le)
  ultimately show ?thesis using in_ev at unfolding k0_def by blast
qed

theorem adaptive_search_keeps_first_minimum_witness:
  "1 \<le> sint (2 :: cint) \<and>
   (\<exists>p k_opt. optimal_pca ex_solver ex_xyz ex_nn ex_nn_ptr 0 3 1 2 1
                 = Some (Some (p, k_opt), [1, 2, 3]) \<and>
               search_start 1 1 3 \<in> set [1, 2, 3] \<and>
               (\<forall>k\<in>set [1, 2, 3]. search_start 1 1 3 \<le> k) \<and>
               k_opt \<in> set [1, 2, 3] \<and>
               neighborhood_pca ex_solver ex_xyz ex_nn ex_nn_ptr 0 k_opt = Some p \<and>
               (\<forall>k\<in>set [1, 2, 3].
                  \<exists>q. neighborhood_pca ex_solver ex_xyz ex_nn ex_nn_ptr 0 k = Some q \<and>
                      eigenentropy p \<le> eigenentropy q \<and>
                      (k < k_opt \<longrightarrow> eigenentropy p < eigenentropy q)))"
proof -
  have s: "1 \<le> sint (2 :: cint)" by simp
  from ex_optimal_pca_search obtain p k_opt where
    opt: "optimal_pca ex_solver ex_xyz ex_nn ex_nn_ptr 0 3 1 2 1 = Some (Some (p, k_opt), [1, 2, 3])"
    by blast
  from adaptive_search_keeps_first_minimum [OF s opt] s opt show ?thesis by blast
qed

end
